theory Spec2Isabelle
  imports Main
begin

section \<open>JavaScript values, property keys and the params bag\<close>

text \<open>
  The router of \<^verbatim>\<open>src/index.js\<close> carries every navigation in one dynamic object, the
  params bag. Its properties are written by \<^verbatim>\<open>match\<close> (captures, \<^verbatim>\<open>router\<close>,
  \<^verbatim>\<open>route\<close>, \<^verbatim>\<open>length\<close>), by the steps of a route and by \<^verbatim>\<open>exec\<close> (\<^verbatim>\<open>error\<close>).
  The bag is modelled as a finite map from property keys to values.

  A JavaScript property key is a string. The keys that are the canonical decimal rendering
  of an integer (\<^verbatim>\<open>params[0]\<close> and \<^verbatim>\<open>params["0"]\<close> are one property) are \<open>Idx n\<close>; every
  other string \<open>s\<close> is \<open>Str s\<close>. \<open>str_key\<close> sorts a string into the two classes.
\<close>

datatype err = Error string | TypeError string

datatype pkey = Str string | Idx int

datatype val =
    VUndef
  | VStr string
  | VNum int
  | VNaN
  | VRouter nat
  | VRoute nat nat
  | VErr err

type_synonym obj = "pkey \<rightharpoonup> val"
type_synonym bag = "pkey \<rightharpoonup> val"

text \<open>Reading a property: an absent property reads as \<^verbatim>\<open>undefined\<close>.\<close>

definition get :: "bag \<Rightarrow> pkey \<Rightarrow> val" where
  "get p k = (case p k of None \<Rightarrow> VUndef | Some v \<Rightarrow> v)"

definition is_digit :: "char \<Rightarrow> bool" where
  "is_digit c = (c \<in> set ''0123456789'')"

definition digit_val :: "char \<Rightarrow> nat" where
  "digit_val c = of_char c - 48"

definition parse_nat :: "string \<Rightarrow> nat" where
  "parse_nat s = foldl (\<lambda>n c. 10 * n + digit_val c) 0 s"

definition canon_nat :: "string \<Rightarrow> bool" where
  "canon_nat s = (s \<noteq> [] \<and> list_all is_digit s \<and> (length s = 1 \<or> hd s \<noteq> CHR ''0''))"

definition str_key :: "string \<Rightarrow> pkey" where
  "str_key s =
     (if canon_nat s then Idx (int (parse_nat s))
      else (case s of
              c # t \<Rightarrow> if c = CHR ''-'' \<and> canon_nat t \<and> t \<noteq> ''0''
                        then Idx (- int (parse_nat t)) else Str s
            | [] \<Rightarrow> Str s))"

fun show_nat :: "nat \<Rightarrow> string" where
  "show_nat n =
     (if n < 10 then [char_of (48 + n)]
      else show_nat (n div 10) @ [char_of (48 + n mod 10)])"

declare show_nat.simps [simp del]

definition show_int :: "int \<Rightarrow> string" where
  "show_int i = (if i < 0 then CHR ''-'' # show_nat (nat (- i)) else show_nat (nat i))"

text \<open>
  \<^verbatim>\<open>'/' + v\<close> renders \<open>v\<close> as a string; objects without a \<^verbatim>\<open>toString\<close> of their own
  (routers, routes) render as \<^verbatim>\<open>[object Object]\<close>, an \<^verbatim>\<open>Error\<close> as its name and message.
\<close>

fun to_string :: "val \<Rightarrow> string" where
  "to_string VUndef = ''undefined''"
| "to_string (VStr s) = s"
| "to_string (VNum n) = show_int n"
| "to_string VNaN = ''NaN''"
| "to_string (VRouter r) = ''[object Object]''"
| "to_string (VRoute r i) = ''[object Object]''"
| "to_string (VErr (Error m)) = ''Error: '' @ m"
| "to_string (VErr (TypeError m)) = ''TypeError: '' @ m"

text \<open>
  The numeric value that \<^verbatim>\<open>--params.length\<close> reads. Numbers of the model are the
  integers and \<^verbatim>\<open>NaN\<close>, and the integers are unbounded (a JavaScript number rounds above
  \<open>2^53\<close>, which no \<^verbatim>\<open>length\<close> bound by \<^verbatim>\<open>match\<close> reaches). A string is read as a number
  when it is empty or an optionally signed run of decimal digits, and as \<^verbatim>\<open>NaN\<close> otherwise:
  the other spellings that JavaScript reads as numbers (surrounding white space, a
  fraction, an exponent, a hexadecimal literal, \<^verbatim>\<open>Infinity\<close>) are not covered. A string
  gets into \<^verbatim>\<open>length\<close> only when a capture named \<^verbatim>\<open>length\<close> or a step stores one there.
\<close>

fun to_number :: "val \<Rightarrow> val" where
  "to_number (VNum n) = VNum n"
| "to_number (VStr s) =
     (if s = [] then VNum 0
      else if list_all is_digit s then VNum (int (parse_nat s))
      else if (hd s = CHR ''-'' \<or> hd s = CHR ''+'') \<and> tl s \<noteq> [] \<and> list_all is_digit (tl s)
        then VNum ((if hd s = CHR ''-'' then - 1 else 1) * int (parse_nat (tl s)))
      else VNaN)"
| "to_number v = VNaN"

fun decrement :: "val \<Rightarrow> val" where
  "decrement (VNum n) = VNum (n - 1)"
| "decrement v = VNaN"

text \<open>The property key that \<^verbatim>\<open>params[v]\<close> addresses.\<close>

fun to_key :: "val \<Rightarrow> pkey" where
  "to_key (VNum n) = Idx n"
| "to_key (VStr s) = str_key s"
| "to_key v = Str (to_string v)"

section \<open>Compiled patterns\<close>

text \<open>
  \<^verbatim>\<open>pathToRegexp\<close> is a library outside the repository, so a compiled pattern is a
  parameter of the model: its \<^verbatim>\<open>keys\<close> (each \<^verbatim>\<open>key.name\<close> a string or a number) and
  its \<^verbatim>\<open>exec\<close>, which returns \<^verbatim>\<open>null\<close> or the capture groups \<^verbatim>\<open>match[1..]\<close>, each a
  string or \<^verbatim>\<open>undefined\<close>.
\<close>

datatype key_name = Name string | Pos nat

record regex =
  keys :: "key_name list"
  re_exec :: "string \<Rightarrow> string option list option"

definition capture :: "string option list \<Rightarrow> nat \<Rightarrow> val" where
  "capture m i =
     (if i < length m then (case m ! i of None \<Rightarrow> VUndef | Some s \<Rightarrow> VStr s) else VUndef)"

fun key_prop :: "key_name \<Rightarrow> pkey" where
  "key_prop (Name s) = str_key s"
| "key_prop (Pos n) = Idx (int n)"

section \<open>Routes, routers and steps\<close>

text \<open>
  A step of a route is a string (an action to dispatch), a function or any other value
  (an object of defaults). Steps act on the store, of type \<open>'w\<close>, and on the bag; a step
  settles as a promise does. The function that \<^verbatim>\<open>child\<close> pushes onto the delegating
  route closes over the child router; it is the constructor \<open>Delegate\<close> with the child's
  address.
\<close>

datatype 'a promise = Resolves 'a | Rejects err

type_synonym 'w reply = "obj promise \<times> 'w \<times> bag"

datatype 'w step =
    StrStep string
  | FunStep "'w \<Rightarrow> bag \<Rightarrow> 'w reply"
  | ObjStep obj
  | Delegate nat

record 'w route =
  rpath :: string
  re :: regex
  steps :: "'w step list"

record 'w router =
  basePath :: string
  baseRoute :: "(nat \<times> nat) option"
  parentRouter :: "nat option"
  routes :: "'w route list"

text \<open>
  Routers are objects held by reference (a child is created first and receives its routes
  later), so they live in a heap: a list of routers, addressed by position. A route is
  addressed by its router and its index in the append-only \<^verbatim>\<open>routes\<close> array.
\<close>

type_synonym 'w heap = "'w router list"

definition normalizePath :: "string \<Rightarrow> string" where
  "normalizePath path = rev (dropWhile (\<lambda>c. c = CHR ''/'') (rev path))"

definition new_router :: "'w router" where
  "new_router = \<lparr>basePath = [], baseRoute = None, parentRouter = None, routes = []\<rparr>"

definition new_route :: "(string \<Rightarrow> regex) \<Rightarrow> string \<Rightarrow> 'w step list \<Rightarrow> 'w route" where
  "new_route pathToRegexp path stps = \<lparr>rpath = path, re = pathToRegexp path, steps = stps\<rparr>"

text \<open>
  \<^verbatim>\<open>add\<close> on the router object itself, and on the heap for the router at address
  \<open>this\<close>; it returns the address of the new route.
\<close>

definition add_route :: "(string \<Rightarrow> regex) \<Rightarrow> 'w router \<Rightarrow> string \<Rightarrow> 'w step list \<Rightarrow> 'w router" where
  "add_route pathToRegexp r path stps =
     r\<lparr>routes := routes r @ [new_route pathToRegexp path stps]\<rparr>"

definition add ::
  "(string \<Rightarrow> regex) \<Rightarrow> 'w heap \<Rightarrow> nat \<Rightarrow> string \<Rightarrow> 'w step list \<Rightarrow> 'w heap \<times> (nat \<times> nat)" where
  "add pathToRegexp H this path stps =
     (H[this := add_route pathToRegexp (H ! this) path stps],
      (this, length (routes (H ! this))))"

section \<open>Router.match\<close>

text \<open>
  The body of \<^verbatim>\<open>re.keys.forEach\<close>: the capture is stored under the key's name, and a
  numeric name also sets \<^verbatim>\<open>length\<close>.
\<close>

definition bind_key :: "string option list \<Rightarrow> key_name \<Rightarrow> nat \<Rightarrow> bag \<Rightarrow> bag" where
  "bind_key m key i params =
     (let params1 = params(key_prop key \<mapsto> capture m i)
      in (case key of
            Pos n \<Rightarrow> params1(Str ''length'' \<mapsto> VNum (int n + 1))
          | Name s \<Rightarrow> params1))"

fun bind_keys :: "string option list \<Rightarrow> key_name list \<Rightarrow> nat \<Rightarrow> bag \<Rightarrow> bag" where
  "bind_keys m [] i params = params"
| "bind_keys m (key # ks) i params = bind_keys m ks (Suc i) (bind_key m key i params)"

text \<open>
  \<^verbatim>\<open>routes.find\<close> with the callback of \<^verbatim>\<open>match\<close>: the first route whose pattern accepts
  the path gets its captures bound and is returned (as its index); a route that does not
  match leaves the bag alone.
\<close>

fun find_route :: "'w route list \<Rightarrow> nat \<Rightarrow> string \<Rightarrow> bag \<Rightarrow> nat option \<times> bag" where
  "find_route [] i path params = (None, params)"
| "find_route (r # rs) i path params =
     (case re_exec (re r) path of
        Some m \<Rightarrow> (Some i, bind_keys m (keys (re r)) 0 (params(Str ''length'' \<mapsto> VNum 0)))
      | None \<Rightarrow> find_route rs (Suc i) path params)"

text \<open>\<^verbatim>\<open>match\<close> of the router \<open>r\<close>, whose address is \<open>this\<close>.\<close>

definition match :: "nat \<Rightarrow> 'w router \<Rightarrow> string \<Rightarrow> bag \<Rightarrow> bag" where
  "match this r path params =
     (let params1 = params(Str ''router'' \<mapsto> VRouter this);
          (found, params2) = find_route (routes r) 0 path params1
      in params2(Str ''route'' \<mapsto> (case found of Some i \<Rightarrow> VRoute this i | None \<Rightarrow> VUndef)))"

section \<open>Router.exec\<close>

text \<open>
  The pipeline is a chain of promises on one thread. A step is modelled by what it has done
  when it settles: the store and the bag it leaves and whether it resolved or rejected (a
  synchronous throw inside a callback rejects the promise of that callback, so both are
  \<open>Rejects\<close>). A step is taken to settle, and the run of one pipeline is taken without
  another navigation's steps in between; what overlapping navigations do to each other is
  the subject of the controller below.

  \<^verbatim>\<open>params.route ? ... : ...\<close> tests the value for truthiness, and
  \<^verbatim>\<open>params.route.steps\<close> follows the reference into the heap.
\<close>

fun truthy :: "val \<Rightarrow> bool" where
  "truthy VUndef = False"
| "truthy (VStr s) = (s \<noteq> [])"
| "truthy (VNum n) = (n \<noteq> 0)"
| "truthy VNaN = False"
| "truthy v = True"

fun route_steps :: "'w heap \<Rightarrow> val \<Rightarrow> 'w step list option" where
  "route_steps H (VRoute r i) =
     (if r < length H \<and> i < length (routes (H ! r)) then Some (steps (routes (H ! r) ! i))
      else None)"
| "route_steps H v = None"

text \<open>
  The params bag is one object that \<^verbatim>\<open>match\<close>, the steps and \<^verbatim>\<open>exec\<close> all mutate in place.
  The model passes its properties along, and names the object itself by an address: a call
  of \<^verbatim>\<open>exec\<close> receives the address of the object it is seeded with together with the
  properties.
\<close>

type_synonym ref = nat

text \<open>
  The result of a run: how the promise settled and with which value, the store and the
  properties of the bag afterwards, and the indices of the steps whose callback was
  invoked, in the order of invocation. The last component is not data of the program; it
  records which steps ran.
\<close>

type_synonym ('a, 'w) run = "'a promise \<times> 'w \<times> bag \<times> nat list"

definition settled :: "('a, 'w) run \<Rightarrow> 'a promise" where
  "settled r = fst r"

definition store_of :: "('a, 'w) run \<Rightarrow> 'w" where
  "store_of r = fst (snd r)"

definition bag_of :: "('a, 'w) run \<Rightarrow> bag" where
  "bag_of r = fst (snd (snd r))"

definition trace_of :: "('a, 'w) run \<Rightarrow> nat list" where
  "trace_of r = snd (snd (snd r))"

text \<open>
  The step that \<^verbatim>\<open>child\<close> pushes:
  \<^verbatim>\<open>const restIdx = --params.length; const path = '/' + params[restIdx];
  delete params[restIdx]; return child.exec(store, path, params);\<close>
  \<open>child_exec\<close> is the \<^verbatim>\<open>exec\<close> of the router at the given address; it is called with the
  same object \<open>a\<close>, and the step settles as that call does and resolves to the bag.
\<close>

definition delegation ::
  "(nat \<Rightarrow> 'w \<Rightarrow> string \<Rightarrow> ref \<Rightarrow> bag \<Rightarrow> (ref, 'w) run option) \<Rightarrow> nat \<Rightarrow> 'w \<Rightarrow>
   ref \<Rightarrow> bag \<Rightarrow> 'w reply option" where
  "delegation child_exec child w a params =
     (let restIdx = decrement (to_number (get params (Str ''length'')));
          params1 = params(Str ''length'' \<mapsto> restIdx);
          path = ''/'' @ to_string (get params1 (to_key restIdx));
          params2 = params1(to_key restIdx := None)
      in (case child_exec child w path a params2 of
            None \<Rightarrow> None
          | Some (Resolves u, w', params', tr) \<Rightarrow> Some (Resolves params', w', params')
          | Some (Rejects e, w', params', tr) \<Rightarrow> Some (Rejects e, w', params')))"

text \<open>
  The callback of \<^verbatim>\<open>Promise.mapSeries\<close> in \<^verbatim>\<open>exec\<close>, by \<^verbatim>\<open>typeof step\<close>. A
  function step and a dispatched action may change the store and the bag and settle
  either way; what they resolve to is the first component of their reply.
  \<^verbatim>\<open>Object.assign(params, step)\<close> copies every property of the step onto the bag.
\<close>

fun run_step ::
  "(nat \<Rightarrow> 'w \<Rightarrow> string \<Rightarrow> ref \<Rightarrow> bag \<Rightarrow> (ref, 'w) run option) \<Rightarrow>
   (string \<Rightarrow> 'w \<Rightarrow> bag \<Rightarrow> 'w reply) \<Rightarrow> ref \<Rightarrow> 'w step \<Rightarrow> 'w \<Rightarrow> bag \<Rightarrow> 'w reply option" where
  "run_step child_exec dispatch a (StrStep action) w params = Some (dispatch action w params)"
| "run_step child_exec dispatch a (FunStep f) w params = Some (f w params)"
| "run_step child_exec dispatch a (Delegate c) w params = delegation child_exec c w a params"
| "run_step child_exec dispatch a (ObjStep step) w params =
     Some (Resolves Map.empty, w, params ++ step)"

text \<open>
  \<^verbatim>\<open>Promise.mapSeries(steps, f)\<close>: the callback runs on one step after the other, the next
  one only once the previous one has resolved; the first rejection rejects the whole and
  no further callback runs. It resolves to the array of the results.
\<close>

fun mapSeries ::
  "('s \<Rightarrow> 'w \<Rightarrow> bag \<Rightarrow> 'w reply option) \<Rightarrow> 's list \<Rightarrow> nat \<Rightarrow> 'w \<Rightarrow> bag \<Rightarrow> (obj list, 'w) run option" where
  "mapSeries f [] i w params = Some (Resolves [], w, params, [])"
| "mapSeries f (s # ss) i w params =
     (case f s w params of
        None \<Rightarrow> None
      | Some (Rejects e, w1, params1) \<Rightarrow> Some (Rejects e, w1, params1, [i])
      | Some (Resolves v, w1, params1) \<Rightarrow>
          (case mapSeries f ss (Suc i) w1 params1 of
             None \<Rightarrow> None
           | Some (Rejects e, w2, params2, tr) \<Rightarrow> Some (Rejects e, w2, params2, i # tr)
           | Some (Resolves vs, w2, params2, tr) \<Rightarrow> Some (Resolves (v # vs), w2, params2, i # tr)))"

text \<open>
  \<^verbatim>\<open>.catch((error) => { params.error = error; })\<close>: a rejection is handled by storing the
  error, and the chain resolves to what the handler returns, \<^verbatim>\<open>undefined\<close> (\<open>None\<close>); a
  fulfilled chain keeps its value.
\<close>

fun catch_error :: "('a, 'w) run \<Rightarrow> ('a option, 'w) run" where
  "catch_error (Rejects e, w, params, tr) =
     (Resolves None, w, params(Str ''error'' \<mapsto> VErr e), tr)"
| "catch_error (Resolves v, w, params, tr) = (Resolves (Some v), w, params, tr)"

text \<open>
  \<^verbatim>\<open>.return(params)\<close>: a fulfilled chain resolves to the object \<^verbatim>\<open>params\<close>, which is the
  object at the address \<open>a\<close>; a rejected chain stays rejected.
\<close>

fun return_params :: "ref \<Rightarrow> ('a, 'w) run \<Rightarrow> (ref, 'w) run" where
  "return_params a (Resolves v, w, params, tr) = (Resolves a, w, params, tr)"
| "return_params a (Rejects e, w, params, tr) = (Rejects e, w, params, tr)"

text \<open>
  \<^verbatim>\<open>exec\<close> of the router at address \<open>this\<close>, seeded with the object at address \<open>a\<close> whose
  properties are \<open>params\<close>, with the \<^verbatim>\<open>exec\<close> of the routers it may delegate to as a
  parameter.
\<close>

definition exec_body ::
  "(nat \<Rightarrow> 'w \<Rightarrow> string \<Rightarrow> ref \<Rightarrow> bag \<Rightarrow> (ref, 'w) run option) \<Rightarrow> 'w heap \<Rightarrow>
   (string \<Rightarrow> 'w \<Rightarrow> bag \<Rightarrow> 'w reply) \<Rightarrow>
   nat \<Rightarrow> 'w \<Rightarrow> string \<Rightarrow> ref \<Rightarrow> bag \<Rightarrow> (ref, 'w) run option" where
  "exec_body child_exec H dispatch this w path a params =
     (if this < length H then
        (let params1 = match this (H ! this) path params
         in map_option (return_params a \<circ> catch_error)
              (if truthy (get params1 (Str ''route''))
               then (case route_steps H (get params1 (Str ''route'')) of
                       None \<Rightarrow> None
                     | Some stps \<Rightarrow> mapSeries (run_step child_exec dispatch a) stps 0 w params1)
               else Some (Rejects (Error ''Not found''), w, params1, [])))
      else None)"

text \<open>
  A delegating step calls the \<^verbatim>\<open>exec\<close> of a child, which may delegate in turn. The depth
  of the calls is bounded by the fuel \<open>n\<close>; \<open>None\<close> says that the fuel did not suffice (or
  that an address is not allocated).
\<close>

fun exec ::
  "nat \<Rightarrow> 'w heap \<Rightarrow> (string \<Rightarrow> 'w \<Rightarrow> bag \<Rightarrow> 'w reply) \<Rightarrow>
   nat \<Rightarrow> 'w \<Rightarrow> string \<Rightarrow> ref \<Rightarrow> bag \<Rightarrow> (ref, 'w) run option" where
  "exec 0 H dispatch this w path a params = None"
| "exec (Suc n) H dispatch this w path a params =
     exec_body (\<lambda>c. exec n H dispatch c) H dispatch this w path a params"

section \<open>Router.child\<close>

text \<open>\<^verbatim>\<open>route.steps.push(step)\<close> on the route at address \<open>(r, i)\<close>.\<close>

definition push_step :: "'w heap \<Rightarrow> nat \<times> nat \<Rightarrow> 'w step \<Rightarrow> 'w heap" where
  "push_step H rt s =
     (case rt of (r, i) \<Rightarrow>
        H[r := (H ! r)\<lparr>routes := (routes (H ! r))
                  [i := (routes (H ! r) ! i)\<lparr>steps := steps (routes (H ! r) ! i) @ [s]\<rparr>]\<rparr>])"

text \<open>
  \<^verbatim>\<open>child(path, ...steps)\<close> on the router at address \<open>this\<close>: the new router is allocated
  at the end of the heap, the delegating route is added to \<open>this\<close>, and the delegation
  step is pushed onto that route. The result is the heap and the child's address.
\<close>

definition child ::
  "(string \<Rightarrow> regex) \<Rightarrow> 'w heap \<Rightarrow> nat \<Rightarrow> string \<Rightarrow> 'w step list \<Rightarrow> 'w heap \<times> nat" where
  "child pathToRegexp H this path stps =
     (let path1 = normalizePath path;
          c = length H;
          H1 = H @ [new_router\<lparr>basePath := normalizePath (basePath (H ! this)) @ path1\<rparr>];
          (H2, rt) = add pathToRegexp H1 this (path1 @ ''/*'') stps;
          H3 = H2[c := (H2 ! c)\<lparr>baseRoute := Some rt, parentRouter := Some this\<rparr>];
          H4 = push_step H3 rt (Delegate c)
      in (H4, c))"

section \<open>The navigation controller\<close>

text \<open>
  The store module's state (\<^verbatim>\<open>progress\<close>, \<^verbatim>\<open>path\<close>, \<^verbatim>\<open>params\<close>), \<^verbatim>\<open>location.hash\<close>
  and the rest of the root state form the world that steps, the hook and the controller
  act on. \<^verbatim>\<open>currentHandle\<close> is a variable of the module's closure: only \<^verbatim>\<open>navigate\<close> reads
  and writes it, so it is kept apart from the world, in the controller state.

  A navigation is modelled in the pieces that the scheduler can separate: the synchronous
  head of \<^verbatim>\<open>navigate\<close>, the pipeline of \<^verbatim>\<open>exec\<close>, and the two \<^verbatim>\<open>tap\<close> handlers. Between
  the head of one navigation and its handlers, other navigations may start and finish;
  each handler reads the controller state of the moment it runs.
\<close>

record 'a world =
  progress :: bool
  st_path :: string
  st_params :: bag
  location_hash :: string
  root :: 'a

text \<open>
  \<^verbatim>\<open>currentHandle\<close> holds an object \<^verbatim>\<open>{ path }\<close> that is compared by identity. A handle is
  its allocation number together with its path; \<open>allocated\<close> counts the handles made so far.
\<close>

record ctl =
  currentHandle :: "nat \<times> string"
  allocated :: nat

definition init_ctl :: ctl where
  "init_ctl = \<lparr>currentHandle = (0, []), allocated = 1\<rparr>"

definition init_world :: "'a \<Rightarrow> 'a world" where
  "init_world x = \<lparr>progress = False, st_path = [], st_params = Map.empty, location_hash = [], root = x\<rparr>"

definition navigating :: "'a world \<Rightarrow> 'a world" where
  "navigating w = w\<lparr>progress := True\<rparr>"

definition navigated :: "'a world \<Rightarrow> string \<Rightarrow> bag \<Rightarrow> 'a world" where
  "navigated w path params = w\<lparr>progress := False, st_path := path, st_params := params\<rparr>"

text \<open>
  The synchronous head of the \<^verbatim>\<open>navigate\<close> action, up to the call of \<^verbatim>\<open>router.exec\<close>: the
  guard, the new handle and \<^verbatim>\<open>commit('navigating')\<close>. \<open>None\<close> is the early return of the
  guard; \<open>Some h\<close> is the handle of the navigation whose pipeline is started.
\<close>

definition navigate_start :: "ctl \<Rightarrow> 'a world \<Rightarrow> string \<Rightarrow> nat option \<times> ctl \<times> 'a world" where
  "navigate_start c w path =
     (if snd (currentHandle c) = path then (None, c, w)
      else (let handle = allocated c;
                c1 = c\<lparr>currentHandle := (handle, path), allocated := Suc (allocated c)\<rparr>
            in (Some handle, c1, navigating w)))"

text \<open>
  What a call \<^verbatim>\<open>router.post(params)\<close> can do: throw, return a value that has no
  \<^verbatim>\<open>catch\<close> method (\<^verbatim>\<open>undefined\<close>, for one), or return a promise. The hook that the module
  installs is \<^verbatim>\<open>() => {}\<close>.
\<close>

datatype hook_reply = Throws err | Plain | Promised "obj promise"

type_synonym 'w hook = "'w \<Rightarrow> bag \<Rightarrow> hook_reply \<times> 'w \<times> bag"

definition default_post :: "'w hook" where
  "default_post w params = (Plain, w, params)"

text \<open>
  The first \<^verbatim>\<open>.tap\<close>: \<^verbatim>\<open>router.post(params).catch((error) => { params.error = error; })\<close>.
  A \<^verbatim>\<open>tap\<close> handler runs on fulfilment only; when it throws or its promise rejects, the
  chain rejects, otherwise the chain keeps its value. Calling \<^verbatim>\<open>.catch\<close> on a value that
  has no such method throws a \<^verbatim>\<open>TypeError\<close> inside the handler; its message is the
  engine's, and the model carries a fixed one.
\<close>

fun post_tap :: "'w hook \<Rightarrow> (ref, 'w) run \<Rightarrow> (ref, 'w) run" where
  "post_tap post (Resolves u, w, params, tr) =
     (case post w params of
        (Throws e, w1, params1) \<Rightarrow> (Rejects e, w1, params1, tr)
      | (Plain, w1, params1) \<Rightarrow>
          (Rejects (TypeError ''Cannot read property catch of undefined''), w1, params1, tr)
      | (Promised (Resolves v), w1, params1) \<Rightarrow> (Resolves u, w1, params1, tr)
      | (Promised (Rejects e), w1, params1) \<Rightarrow>
          (Resolves u, w1, params1(Str ''error'' \<mapsto> VErr e), tr))"
| "post_tap post (Rejects e, w, params, tr) = (Rejects e, w, params, tr)"

text \<open>
  The second \<^verbatim>\<open>.tap\<close>, run by the navigation with handle \<open>handle\<close> and path \<open>path\<close> when
  the controller is in state \<open>c\<close>: the identity check, the write of \<^verbatim>\<open>location.hash\<close> and
  \<^verbatim>\<open>commit('navigated', { path, params })\<close>.
\<close>

fun commit_tap :: "ctl \<Rightarrow> nat \<Rightarrow> string \<Rightarrow> (ref, 'a world) run \<Rightarrow> (ref, 'a world) run" where
  "commit_tap c handle path (Resolves u, w, params, tr) =
     (if fst (currentHandle c) = handle
      then (Resolves u, navigated (w\<lparr>location_hash := ''#'' @ path\<rparr>) path params, params, tr)
      else (Resolves u, w, params, tr))"
| "commit_tap c handle path (Rejects e, w, params, tr) = (Rejects e, w, params, tr)"

text \<open>
  What \<^verbatim>\<open>navigate\<close> returns: \<^verbatim>\<open>undefined\<close> from the guard, or the promise of the chain.
\<close>

datatype 'w outcome = Ignored | Chain "(ref, 'w) run"

text \<open>
  A whole navigation that no other navigation interrupts, on the router at address
  \<open>router\<close> with the hook \<open>post\<close>. \<^verbatim>\<open>router.exec\<close> is called without a bag, so the pipeline
  starts from a fresh empty object; the object that a navigation makes is named by the
  number of that navigation's handle.
\<close>

definition navigate ::
  "nat \<Rightarrow> 'a world heap \<Rightarrow> (string \<Rightarrow> 'a world \<Rightarrow> bag \<Rightarrow> 'a world reply) \<Rightarrow> 'a world hook \<Rightarrow> nat \<Rightarrow>
   ctl \<Rightarrow> 'a world \<Rightarrow> string \<Rightarrow> (ctl \<times> 'a world \<times> 'a world outcome) option" where
  "navigate n H dispatch post router c w path =
     (case navigate_start c w path of
        (None, c1, w1) \<Rightarrow> Some (c1, w1, Ignored)
      | (Some handle, c1, w1) \<Rightarrow>
          (case exec n H dispatch router w1 path handle Map.empty of
             None \<Rightarrow> None
           | Some r \<Rightarrow>
               (let r1 = commit_tap c1 handle path (post_tap post r)
                in Some (c1, store_of r1, Chain r1))))"

section \<open>Notions of the specification\<close>

text \<open>
  The numeric capture keys of a pattern, in declaration order, and the value that the
  specification gives for \<^verbatim>\<open>params.length\<close>: one more than the largest numeric key, and
  zero when there is none.
\<close>

definition positions :: "key_name list \<Rightarrow> nat list" where
  "positions ks = concat (map (\<lambda>k. case k of Pos n \<Rightarrow> [n] | Name s \<Rightarrow> []) ks)"

definition spec_length :: "key_name list \<Rightarrow> nat" where
  "spec_length ks = (if positions ks = [] then 0 else 1 + Max (set (positions ks)))"

section \<open>Sample patterns, routers and steps\<close>

text \<open>
  Sample compiled patterns with the keys that \<^verbatim>\<open>pathToRegexp\<close> gives two shapes of
  template: \<^verbatim>\<open>prefix:name\<close>, one named segment after a literal prefix, and
  \<^verbatim>\<open>prefix*\<close>, the unnamed wildcard (key \<^verbatim>\<open>0\<close>) after a literal prefix. They accept
  the paths written in the case of the template and without a trailing slash; the library
  also accepts other letter case and one trailing slash, which the examples below do
  not use.
\<close>

definition param_pattern :: "string \<Rightarrow> string \<Rightarrow> regex" where
  "param_pattern prefix name =
     \<lparr>keys = [Name name],
      re_exec = (\<lambda>s. if take (length prefix) s = prefix \<and> drop (length prefix) s \<noteq> []
                         \<and> CHR ''/'' \<notin> set (drop (length prefix) s)
                      then Some [Some (drop (length prefix) s)] else None)\<rparr>"

definition wild_pattern :: "string \<Rightarrow> regex" where
  "wild_pattern prefix =
     \<lparr>keys = [Pos 0],
      re_exec = (\<lambda>s. if take (length prefix) s = prefix
                      then Some [Some (drop (length prefix) s)] else None)\<rparr>"

text \<open>A router with \<^verbatim>\<open>/users/:id\<close> added before \<^verbatim>\<open>/users/*\<close>.\<close>

definition two_routes :: "nat router" where
  "two_routes = new_router\<lparr>routes :=
     [\<lparr>rpath = ''/users/:id'', re = param_pattern ''/users/'' ''id'', steps = []\<rparr>,
      \<lparr>rpath = ''/users/*'', re = wild_pattern ''/users/'', steps = []\<rparr>]\<rparr>"

text \<open>A router whose only route, \<^verbatim>\<open>/:length\<close>, names its capture \<^verbatim>\<open>length\<close>.\<close>

definition length_router :: "nat router" where
  "length_router = new_router\<lparr>routes :=
     [\<lparr>rpath = ''/:length'', re = param_pattern ''/'' ''length'', steps = []\<rparr>]\<rparr>"

text \<open>A router with the single route \<^verbatim>\<open>/files/*\<close>.\<close>

definition files_router :: "nat router" where
  "files_router = new_router\<lparr>routes :=
     [\<lparr>rpath = ''/files/*'', re = wild_pattern ''/files/'', steps = []\<rparr>]\<rparr>"

text \<open>
  A store without actions, and two function steps on a store that is a counter: each
  counts its own invocation; \<open>tick\<close> resolves and \<open>boom\<close> rejects.
\<close>

definition no_actions :: "string \<Rightarrow> 'w \<Rightarrow> bag \<Rightarrow> 'w reply" where
  "no_actions a w params = (Resolves Map.empty, w, params)"

definition tick :: "nat step" where
  "tick = FunStep (\<lambda>w params. (Resolves Map.empty, Suc w, params))"

definition boom :: "nat step" where
  "boom = FunStep (\<lambda>w params. (Rejects (Error ''boom''), Suc w, params))"

text \<open>
  \<^verbatim>\<open>router.add('/users/:id', { role: 'member' }, boom, tick)\<close> and
  \<^verbatim>\<open>router.add('/users/:id', { id: 'admin' })\<close>.
\<close>

definition pipeline_router :: "nat router" where
  "pipeline_router = new_router\<lparr>routes :=
     [\<lparr>rpath = ''/users/:id'', re = param_pattern ''/users/'' ''id'',
       steps = [ObjStep [Str ''role'' \<mapsto> VStr ''member''], boom, tick]\<rparr>]\<rparr>"

definition override_router :: "nat router" where
  "override_router = new_router\<lparr>routes :=
     [\<lparr>rpath = ''/users/:id'', re = param_pattern ''/users/'' ''id'',
       steps = [ObjStep [Str ''id'' \<mapsto> VStr ''admin'']]\<rparr>]\<rparr>"

text \<open>
  A sample compiled pattern of a template without parameters (again for paths in the
  case of the template and without a trailing slash), and a router with the single route
  \<^verbatim>\<open>/home\<close>, which has no steps.
\<close>

definition lit_pattern :: "string \<Rightarrow> regex" where
  "lit_pattern template = \<lparr>keys = [], re_exec = (\<lambda>s. if s = template then Some [] else None)\<rparr>"

definition home_router :: "unit world router" where
  "home_router = new_router\<lparr>routes :=
     [\<lparr>rpath = ''/home'', re = lit_pattern ''/home'', steps = []\<rparr>]\<rparr>"

text \<open>A hook that does nothing and returns a fulfilled promise.\<close>

definition resolved_post :: "'w hook" where
  "resolved_post w params = (Promised (Resolves Map.empty), w, params)"

text \<open>
  The controller after a call \<^verbatim>\<open>navigate(path)\<close>, and after a series of calls; the store
  has no part in it.
\<close>

definition ctl_after :: "ctl \<Rightarrow> string \<Rightarrow> ctl" where
  "ctl_after c path = fst (snd (navigate_start c (init_world ()) path))"

text \<open>
  A pattern compiler for the templates of the nested example, and the heap built by
  \<^verbatim>\<open>const users = root.child('/users/'); users.add('/posts/:postId')\<close>, with \<^verbatim>\<open>root\<close> at
  address 0.
\<close>

definition sample_compile :: "string \<Rightarrow> regex" where
  "sample_compile template =
     (if template = ''/users/*'' then wild_pattern ''/users/''
      else if template = ''/posts/:postId'' then param_pattern ''/posts/'' ''postId''
      else lit_pattern template)"

definition nested_heap :: "nat heap" where
  "nested_heap =
     (case child sample_compile [new_router] 0 ''/users/'' [] of
        (H1, users) \<Rightarrow> fst (add sample_compile H1 users ''/posts/:postId'' []))"

text \<open>
  Every delegation step in a heap built with \<^verbatim>\<open>child\<close> points to a router allocated after
  the one that holds the step.
\<close>

definition wf_heap :: "'w heap \<Rightarrow> bool" where
  "wf_heap H = (\<forall>r<length H. \<forall>rt\<in>set (routes (H ! r)). \<forall>c.
                  Delegate c \<in> set (steps rt) \<longrightarrow> r < c \<and> c < length H)"

section \<open>Properties of Router.match\<close>

lemma str_key_Str: "str_key s = Str t \<Longrightarrow> t = s"
  by (auto simp: str_key_def split: if_splits list.splits)

lemma str_key_length: "str_key ''length'' = Str ''length''"
  by (simp add: str_key_def canon_nat_def is_digit_def)

lemma str_key_id: "str_key ''id'' = Str ''id''"
  by (simp add: str_key_def canon_nat_def is_digit_def)

lemma find_route_none:
  "\<forall>j<length rs. re_exec (re (rs ! j)) path = None \<Longrightarrow> find_route rs k path p = (None, p)"
proof (induction rs arbitrary: k)
  case Nil
  show ?case by simp
next
  case (Cons r rs)
  from Cons.prems have h: "re_exec (re r) path = None" by auto
  from Cons.prems have t: "\<forall>j<length rs. re_exec (re (rs ! j)) path = None" by auto
  show ?case using h Cons.IH [OF t] by simp
qed

lemma find_route_first:
  "i < length rs \<Longrightarrow> re_exec (re (rs ! i)) path = Some m \<Longrightarrow>
   \<forall>j<i. re_exec (re (rs ! j)) path = None \<Longrightarrow>
   find_route rs k path p =
     (Some (k + i), bind_keys m (keys (re (rs ! i))) 0 (p(Str ''length'' \<mapsto> VNum 0)))"
proof (induction rs arbitrary: i k)
  case Nil
  then show ?case by simp
next
  case (Cons r rs)
  show ?case
  proof (cases i)
    case 0
    with Cons.prems show ?thesis by (simp add: fun_upd_def)
  next
    case (Suc i')
    from Cons.prems Suc have h: "re_exec (re r) path = None" by auto
    from Cons.prems Suc have a: "i' < length rs" "re_exec (re (rs ! i')) path = Some m" by auto
    from Cons.prems Suc have b: "\<forall>j<i'. re_exec (re (rs ! j)) path = None" by auto
    show ?thesis using h Cons.IH [OF a b, of "Suc k"] Suc by simp
  qed
qed

lemma first_match_exists:
  "i < length rs \<Longrightarrow> re_exec (re (rs ! i)) path = Some m \<Longrightarrow>
   \<exists>k\<le>i. (\<exists>m'. re_exec (re (rs ! k)) path = Some m') \<and> (\<forall>l<k. re_exec (re (rs ! l)) path = None)"
proof (induction i arbitrary: m rule: less_induct)
  case (less i)
  show ?case
  proof (cases "\<forall>l<i. re_exec (re (rs ! l)) path = None")
    case True
    with less.prems show ?thesis by blast
  next
    case False
    then obtain l m' where l: "l < i" "re_exec (re (rs ! l)) path = Some m'" by auto
    with less.prems have "l < length rs" by simp
    from less.IH [OF l(1) this l(2)] obtain k where
      "k \<le> l" "\<exists>m'. re_exec (re (rs ! k)) path = Some m'"
      "\<forall>l<k. re_exec (re (rs ! l)) path = None" by blast
    with l(1) show ?thesis by (intro exI [of _ k]) auto
  qed
qed

lemma match_first:
  "i < length (routes r) \<Longrightarrow> re_exec (re (routes r ! i)) path = Some m \<Longrightarrow>
   \<forall>j<i. re_exec (re (routes r ! j)) path = None \<Longrightarrow>
   match this r path seed =
     (bind_keys m (keys (re (routes r ! i))) 0
        (seed(Str ''router'' \<mapsto> VRouter this, Str ''length'' \<mapsto> VNum 0)))
     (Str ''route'' \<mapsto> VRoute this i)"
  by (simp add: match_def find_route_first)

lemma match_none:
  "\<forall>j<length (routes r). re_exec (re (routes r ! j)) path = None \<Longrightarrow>
   match this r path seed = seed(Str ''router'' \<mapsto> VRouter this, Str ''route'' \<mapsto> VUndef)"
  by (simp add: match_def find_route_none)

lemma dom_bind_key: "dom (bind_key m key i p) =
   dom p \<union> {key_prop key} \<union> (case key of Pos n \<Rightarrow> {Str ''length''} | Name s \<Rightarrow> {})"
  by (cases key) (auto simp: bind_key_def)

lemma dom_bind_keys:
  "Str ''length'' \<in> dom p \<Longrightarrow> dom (bind_keys m ks i p) = dom p \<union> key_prop ` set ks"
proof (induction ks arbitrary: i p)
  case Nil
  show ?case by simp
next
  case (Cons key ks)
  have "Str ''length'' \<in> dom (bind_key m key i p)" using Cons.prems by (simp add: dom_bind_key)
  from Cons.IH [OF this] show ?case using Cons.prems
    by (cases key) (auto simp: dom_bind_key)
qed

text \<open>
  Claim C2 (first-match precedence). Let the routes at indices \<open>i < j\<close> of a router both
  accept the path. Then \<^verbatim>\<open>match\<close> binds \<^verbatim>\<open>params.route\<close> to the earliest route that accepts
  the path, which is at an index \<open>k \<le> i\<close>, so never to the later route. When no route added
  before the one at \<open>i\<close> accepts the path, the result is the seed with \<^verbatim>\<open>router\<close>, the
  captures of that route (and \<^verbatim>\<open>length\<close>) and \<^verbatim>\<open>route\<close> bound to it; the properties of the
  bag are those of the seed, the three reserved ones and the keys of that route, and none
  of the later route.
\<close>

theorem first_match_precedence:
  assumes "i < j" and "j < length (routes r)"
    and "re_exec (re (routes r ! i)) path = Some m1"
    and "re_exec (re (routes r ! j)) path = Some m2"
  shows "(\<exists>k\<le>i. get (match this r path seed) (Str ''route'') = VRoute this k
            \<and> re_exec (re (routes r ! k)) path \<noteq> None
            \<and> (\<forall>l<k. re_exec (re (routes r ! l)) path = None))
       \<and> ((\<forall>l<i. re_exec (re (routes r ! l)) path = None) \<longrightarrow>
            match this r path seed =
              (bind_keys m1 (keys (re (routes r ! i))) 0
                 (seed(Str ''router'' \<mapsto> VRouter this, Str ''length'' \<mapsto> VNum 0)))
              (Str ''route'' \<mapsto> VRoute this i)
            \<and> dom (match this r path seed) =
                dom seed \<union> {Str ''router'', Str ''length'', Str ''route''}
                  \<union> key_prop ` set (keys (re (routes r ! i))))"
proof (intro conjI impI)
  have i: "i < length (routes r)" using assms by simp
  from first_match_exists [OF i assms(3)] obtain k m' where
    k: "k \<le> i" "re_exec (re (routes r ! k)) path = Some m'"
       "\<forall>l<k. re_exec (re (routes r ! l)) path = None" by blast
  have "k < length (routes r)" using k(1) i by simp
  from match_first [OF this k(2) k(3)]
  have "get (match this r path seed) (Str ''route'') = VRoute this k" by (simp add: get_def)
  with k show "\<exists>k\<le>i. get (match this r path seed) (Str ''route'') = VRoute this k
            \<and> re_exec (re (routes r ! k)) path \<noteq> None
            \<and> (\<forall>l<k. re_exec (re (routes r ! l)) path = None)" by auto
next
  assume f: "\<forall>l<i. re_exec (re (routes r ! l)) path = None"
  have i: "i < length (routes r)" using assms by simp
  show "match this r path seed =
              (bind_keys m1 (keys (re (routes r ! i))) 0
                 (seed(Str ''router'' \<mapsto> VRouter this, Str ''length'' \<mapsto> VNum 0)))
              (Str ''route'' \<mapsto> VRoute this i)"
    by (rule match_first [OF i assms(3) f])
  then show "dom (match this r path seed) =
                dom seed \<union> {Str ''router'', Str ''length'', Str ''route''}
                  \<union> key_prop ` set (keys (re (routes r ! i)))"
    by (auto simp: dom_bind_keys)
qed

text \<open>
  The path \<^verbatim>\<open>/users/42\<close> is accepted by both routes of \<open>two_routes\<close>; the first one is
  bound, with its capture \<^verbatim>\<open>id\<close>, and the wildcard capture of the second is not.
\<close>

theorem first_match_precedence_witness:
  "get (match 0 two_routes ''/users/42'' Map.empty) (Str ''route'') = VRoute 0 0
   \<and> get (match 0 two_routes ''/users/42'' Map.empty) (Str ''id'') = VStr ''42''
   \<and> match 0 two_routes ''/users/42'' Map.empty (Idx 0) = None"
  using first_match_precedence
    [of 0 1 two_routes "''/users/42''" "[Some ''42'']" "[Some ''42'']" 0 Map.empty]
  by (simp add: two_routes_def new_router_def param_pattern_def wild_pattern_def get_def
      bind_key_def capture_def str_key_id)

subsection \<open>The length of a match\<close>

lemma positions_Cons:
  "positions (Pos n # ks) = n # positions ks"
  "positions (Name s # ks) = positions ks"
  "positions [] = []"
  by (simp_all add: positions_def)

lemma positions_empty: "positions ks = [] \<longleftrightarrow> (\<forall>n. Pos n \<notin> set ks)"
proof (induction ks)
  case Nil
  show ?case by (simp add: positions_Cons)
next
  case (Cons k ks)
  then show ?case by (cases k) (auto simp: positions_Cons)
qed

text \<open>
  After \<^verbatim>\<open>forEach\<close>, \<^verbatim>\<open>length\<close> holds what its last writer stored: a numeric key \<open>n\<close> stores
  \<open>n + 1\<close>, and a key named \<^verbatim>\<open>length\<close> stores its capture. When every key named
  \<^verbatim>\<open>length\<close> is followed by a numeric key, the last writer is the last numeric key.
\<close>

lemma bind_keys_length:
  "\<forall>pre post. ks = pre @ Name ''length'' # post \<longrightarrow> (\<exists>n. Pos n \<in> set post) \<Longrightarrow>
   get (bind_keys m ks i p) (Str ''length'') =
     (if positions ks = [] then get p (Str ''length'') else VNum (int (last (positions ks)) + 1))"
proof (induction ks arbitrary: i p)
  case Nil
  show ?case by (simp add: positions_Cons)
next
  case (Cons key ks)
  have tl: "\<forall>pre post. ks = pre @ Name ''length'' # post \<longrightarrow> (\<exists>n. Pos n \<in> set post)"
  proof (intro allI impI)
    fix pre post assume "ks = pre @ Name ''length'' # post"
    then have "key # ks = (key # pre) @ Name ''length'' # post" by simp
    with Cons.prems show "\<exists>n. Pos n \<in> set post" by blast
  qed
  note IH = Cons.IH [OF tl, of "Suc i" "bind_key m key i p"]
  show ?case
  proof (cases key)
    case (Pos n)
    have "get (bind_key m key i p) (Str ''length'') = VNum (int n + 1)"
      using Pos by (simp add: bind_key_def get_def)
    with IH Pos show ?thesis by (simp add: positions_Cons)
  next
    case (Name s)
    show ?thesis
    proof (cases "positions ks = []")
      case True
      have "s \<noteq> ''length''"
      proof
        assume "s = ''length''"
        then have "key # ks = [] @ Name ''length'' # ks" using Name by simp
        with Cons.prems have "\<exists>n. Pos n \<in> set ks" by blast
        with True show False by (simp add: positions_empty)
      qed
      then have "str_key s \<noteq> Str ''length''" using str_key_Str by blast
      then have "get (bind_key m key i p) (Str ''length'') = get p (Str ''length'')"
        using Name by (simp add: bind_key_def get_def)
      with IH Name True show ?thesis by (simp add: positions_Cons)
    next
      case False
      with IH Name show ?thesis by (simp add: positions_Cons)
    qed
  qed
qed

lemma sorted_last_Max: "sorted xs \<Longrightarrow> xs \<noteq> [] \<Longrightarrow> last xs = Max (set (xs::nat list))"
proof (induction xs)
  case Nil
  then show ?case by simp
next
  case (Cons x xs)
  show ?case
  proof (cases "xs = []")
    case True
    then show ?thesis by simp
  next
    case False
    with Cons have "last xs = Max (set xs)" by simp
    moreover have "\<forall>y\<in>set xs. x \<le> y" using Cons.prems by simp
    then have "x \<le> Max (set xs)" using False
      by (meson List.finite_set Max_ge_iff last_in_set set_empty)
    ultimately show ?thesis using False by (simp add: max_def)
  qed
qed

text \<open>
  Claim C6, as stated, fails. The pattern \<^verbatim>\<open>/:length\<close> has no numeric key, so the claim
  gives \<^verbatim>\<open>length\<close> the value 0; but the capture named \<^verbatim>\<open>length\<close> is stored in the same
  property after \<^verbatim>\<open>params.length = 0\<close>, and on the path \<^verbatim>\<open>/x\<close> the bag's \<^verbatim>\<open>length\<close> is the
  string \<^verbatim>\<open>x\<close>.
\<close>

theorem match_length_counterexample:
  "re_exec (re (routes length_router ! 0)) ''/x'' = Some [Some ''x'']
   \<and> get (match 0 length_router ''/x'' Map.empty) (Str ''length'') = VStr ''x''
   \<and> get (match 0 length_router ''/x'' Map.empty) (Str ''length'')
       \<noteq> VNum (int (spec_length (keys (re (routes length_router ! 0)))))"
  by (simp add: length_router_def new_router_def param_pattern_def match_def bind_key_def
      str_key_length get_def capture_def spec_length_def positions_def)

text \<open>
  Claim C6, amended. Let the route at index \<open>i\<close> be the one that \<^verbatim>\<open>match\<close> selects, let its
  numeric keys be numbered in ascending order (as the pattern compiler numbers them), and
  let every capture named \<^verbatim>\<open>length\<close> be followed by a numeric key. Then the bag's
  \<^verbatim>\<open>length\<close> is one more than the largest numeric key of the pattern, and zero when the
  pattern has no numeric key.
\<close>

theorem match_length:
  assumes "i < length (routes r)"
    and "re_exec (re (routes r ! i)) path = Some m"
    and "\<forall>j<i. re_exec (re (routes r ! j)) path = None"
    and "sorted (positions (keys (re (routes r ! i))))"
    and "\<forall>pre post. keys (re (routes r ! i)) = pre @ Name ''length'' # post
           \<longrightarrow> (\<exists>n. Pos n \<in> set post)"
  shows "get (match this r path seed) (Str ''length'')
           = VNum (int (spec_length (keys (re (routes r ! i)))))"
proof -
  let ?ks = "keys (re (routes r ! i))"
  let ?p = "seed(Str ''router'' \<mapsto> VRouter this, Str ''length'' \<mapsto> VNum 0)"
  have "get (match this r path seed) (Str ''length'') = get (bind_keys m ?ks 0 ?p) (Str ''length'')"
    using match_first [OF assms(1-3)] by (simp add: get_def)
  also have "\<dots> = (if positions ?ks = [] then get ?p (Str ''length'')
                    else VNum (int (last (positions ?ks)) + 1))"
    by (rule bind_keys_length [OF assms(5)])
  also have "\<dots> = VNum (int (spec_length ?ks))"
    using sorted_last_Max [OF assms(4)] by (simp add: spec_length_def get_def)
  finally show ?thesis .
qed

text \<open>The wildcard of \<^verbatim>\<open>/files/*\<close> has the numeric key 0, so \<^verbatim>\<open>length\<close> is 1.\<close>

theorem match_length_witness:
  "get (match 0 files_router ''/files/a/b'' Map.empty) (Str ''length'') = VNum 1"
  using match_length [of 0 files_router "''/files/a/b''" "[Some ''a/b'']" 0 Map.empty]
  by (simp add: files_router_def new_router_def wild_pattern_def positions_def spec_length_def
      Cons_eq_append_conv)

section \<open>Properties of Router.exec\<close>

lemma mapSeries_resolves_trace:
  "mapSeries f ss i w p = Some (Resolves vs, w1, p1, tr) \<Longrightarrow> tr = [i..<i + length ss]"
proof (induction ss arbitrary: i w p vs tr)
  case Nil
  then show ?case by simp
next
  case (Cons s ss)
  from Cons.prems obtain v wa pa vs' tr' where
    a: "f s w p = Some (Resolves v, wa, pa)"
    and b: "mapSeries f ss (Suc i) wa pa = Some (Resolves vs', w1, p1, tr')"
    and c: "tr = i # tr'"
    by (auto split: option.splits promise.splits prod.splits)
  from Cons.IH [OF b] c show ?case by (simp add: upt_rec)
qed

lemma mapSeries_append:
  "mapSeries f pre i w p = Some (Resolves vs, w1, p1, tr) \<Longrightarrow>
   mapSeries f (pre @ rest) i w p =
     (case mapSeries f rest (i + length pre) w1 p1 of
        None \<Rightarrow> None
      | Some (Rejects e, w2, p2, tr2) \<Rightarrow> Some (Rejects e, w2, p2, tr @ tr2)
      | Some (Resolves vs2, w2, p2, tr2) \<Rightarrow> Some (Resolves (vs @ vs2), w2, p2, tr @ tr2))"
proof (induction pre arbitrary: i w p vs tr)
  case Nil
  then show ?case by (auto split: option.splits promise.splits prod.splits)
next
  case (Cons s pre)
  from Cons.prems obtain v wa pa vs' tr' where
    a: "f s w p = Some (Resolves v, wa, pa)"
    and b: "mapSeries f pre (Suc i) wa pa = Some (Resolves vs', w1, p1, tr')"
    and c: "tr = i # tr'" "vs = v # vs'"
    by (auto split: option.splits promise.splits prod.splits)
  show ?case using a c Cons.IH [OF b]
    by (simp split: option.splits promise.splits prod.splits)
qed

lemma mapSeries_stops:
  assumes pre: "mapSeries f pre 0 w p = Some (Resolves vs, w1, p1, tr)"
    and s: "f s w1 p1 = Some (Rejects e, w2, p2)"
  shows "mapSeries f (pre @ s # post) 0 w p = Some (Rejects e, w2, p2, [0..<Suc (length pre)])"
proof -
  have tr: "tr = [0..<length pre]" using mapSeries_resolves_trace [OF pre] by simp
  have "mapSeries f (s # post) (0 + length pre) w1 p1 = Some (Rejects e, w2, p2, [length pre])"
    using s by simp
  then show ?thesis using mapSeries_append [OF pre, of "s # post"] tr by simp
qed

lemma mapSeries_ObjSteps:
  "mapSeries (run_step ce d a) (map ObjStep os) i w p =
     Some (Resolves (map (\<lambda>step. Map.empty) os), w, foldl (++) p os, [i..<i + length os])"
proof (induction os arbitrary: i p)
  case Nil
  show ?case by simp
next
  case (Cons step os)
  show ?case using Cons.IH [of "Suc i" "p ++ step"] by (simp add: upt_rec)
qed

lemma exec_matched:
  assumes "this < length H" and "k < length (routes (H ! this))"
    and "re_exec (re (routes (H ! this) ! k)) path = Some m"
    and "\<forall>j<k. re_exec (re (routes (H ! this) ! j)) path = None"
  shows "exec (Suc n) H dispatch this w path a seed =
     map_option (return_params a \<circ> catch_error)
       (mapSeries (run_step (exec n H dispatch) dispatch a) (steps (routes (H ! this) ! k)) 0 w
          (match this (H ! this) path seed))"
proof -
  have "get (match this (H ! this) path seed) (Str ''route'') = VRoute this k"
    using match_first [OF assms(2) assms(3) assms(4)] by (simp add: get_def)
  then show ?thesis using assms(1) assms(2) by (simp add: exec_body_def)
qed

lemma exec_not_found:
  assumes "this < length H"
    and "\<forall>j<length (routes (H ! this)). re_exec (re (routes (H ! this) ! j)) path = None"
  shows "exec (Suc n) H dispatch this w path a seed =
     Some (Resolves a, w,
           seed(Str ''router'' \<mapsto> VRouter this, Str ''route'' \<mapsto> VUndef,
                Str ''error'' \<mapsto> VErr (Error ''Not found'')), [])"
  using assms(1) match_none [OF assms(2)] by (simp add: exec_body_def get_def)

lemma catch_return_resolves: "fst (return_params a (catch_error x)) = Resolves a"
proof -
  obtain pr w p tr where x: "x = (pr, w, p, tr)" by (cases x) auto
  show ?thesis by (cases pr) (simp_all add: x)
qed

lemma exec_resolves:
  assumes "exec n H dispatch this w path a seed = Some r"
  shows "settled r = Resolves a"
proof (cases n)
  case 0
  with assms show ?thesis by simp
next
  case (Suc n')
  with assms show ?thesis
    by (auto simp: exec_body_def Let_def catch_return_resolves settled_def
        split: if_splits option.splits)
qed

lemma str_key_role: "str_key ''role'' = Str ''role''"
  by (simp add: str_key_def canon_nat_def is_digit_def)

lemma dom_match:
  assumes "k < length (routes r)"
    and "re_exec (re (routes r ! k)) path = Some m"
    and "\<forall>j<k. re_exec (re (routes r ! j)) path = None"
  shows "dom (match this r path seed) =
           dom seed \<union> {Str ''router'', Str ''length'', Str ''route''}
             \<union> key_prop ` set (keys (re (routes r ! k)))"
  using match_first [OF assms] by (auto simp: dom_bind_keys)

text \<open>When every step of the selected route resolves, all callbacks ran, in order.\<close>

lemma exec_runs_all:
  assumes "this < length H" and "k < length (routes (H ! this))"
    and "re_exec (re (routes (H ! this) ! k)) path = Some m"
    and "\<forall>j<k. re_exec (re (routes (H ! this) ! j)) path = None"
    and "mapSeries (run_step (exec n H dispatch) dispatch a) (steps (routes (H ! this) ! k)) 0 w
           (match this (H ! this) path seed) = Some (Resolves vs, w1, p1, tr)"
  shows "exec (Suc n) H dispatch this w path a seed =
     Some (Resolves a, w1, p1, [0..<length (steps (routes (H ! this) ! k))])"
  using exec_matched [OF assms(1-4)] assms(5) mapSeries_resolves_trace [OF assms(5)]
  by simp

text \<open>
  Claim C4 (short circuit). Let \<^verbatim>\<open>match\<close> select the route at index \<open>k\<close>, whose steps are
  \<open>pre @ s # post\<close>; let the steps of \<open>pre\<close> resolve, one after the other from the matched
  bag, and let \<open>s\<close> reject with \<open>e\<close>. Then \<^verbatim>\<open>exec\<close> resolves; the callbacks that ran are those
  of \<open>pre\<close> and of \<open>s\<close>, in order, and none of \<open>post\<close>; the store and the bag are those that
  \<open>s\<close> left, and the bag's \<^verbatim>\<open>error\<close> is \<open>e\<close>.
\<close>

theorem exec_short_circuit:
  assumes "this < length H" and "k < length (routes (H ! this))"
    and "re_exec (re (routes (H ! this) ! k)) path = Some m"
    and "\<forall>j<k. re_exec (re (routes (H ! this) ! j)) path = None"
    and "steps (routes (H ! this) ! k) = pre @ s # post"
    and "mapSeries (run_step (exec n H dispatch) dispatch a) pre 0 w
           (match this (H ! this) path seed) = Some (Resolves vs, w1, p1, tr)"
    and "run_step (exec n H dispatch) dispatch a s w1 p1 = Some (Rejects e, w2, p2)"
  shows "exec (Suc n) H dispatch this w path a seed =
     Some (Resolves a, w2, p2(Str ''error'' \<mapsto> VErr e), [0..<Suc (length pre)])"
  using exec_matched [OF assms(1-4)] mapSeries_stops [OF assms(6) assms(7)] assms(5)
  by simp

text \<open>
  On \<open>pipeline_router\<close> the object step and \<open>boom\<close> run, \<open>tick\<close> does not: the counter
  ends at 1.
\<close>

theorem exec_short_circuit_witness:
  "\<exists>p. exec (Suc 0) [pipeline_router] no_actions 0 0 ''/users/42'' 5 Map.empty
          = Some (Resolves 5, Suc 0, p, [0, 1])
       \<and> get p (Str ''error'') = VErr (Error ''boom'')"
  using exec_short_circuit [where this = 0 and H = "[pipeline_router]" and k = 0
      and path = "''/users/42''" and m = "[Some ''42'']"
      and pre = "[ObjStep [Str ''role'' \<mapsto> VStr ''member'']]" and s = boom and post = "[tick]"
      and n = 0 and dispatch = no_actions and w = 0 and a = 5 and seed = Map.empty
      and vs = "[Map.empty]" and ?w1.0 = 0
      and ?p1.0 = "match 0 pipeline_router ''/users/42'' Map.empty ++ [Str ''role'' \<mapsto> VStr ''member'']"
      and tr = "[0]" and e = "Error ''boom''" and ?w2.0 = "Suc 0"
      and ?p2.0 = "match 0 pipeline_router ''/users/42'' Map.empty ++ [Str ''role'' \<mapsto> VStr ''member'']"]
  by (simp add: pipeline_router_def new_router_def param_pattern_def boom_def get_def upt_rec)

lemma bind_key_other:
  "key \<noteq> key_prop k \<Longrightarrow> key \<noteq> Str ''length'' \<Longrightarrow> bind_key m k i p key = p key"
  by (cases k) (simp_all add: bind_key_def)

lemma bind_keys_other:
  "key \<notin> key_prop ` set ks \<Longrightarrow> key \<noteq> Str ''length'' \<Longrightarrow> bind_keys m ks i p key = p key"
proof (induction ks arbitrary: i p)
  case Nil
  show ?case by simp
next
  case (Cons k ks)
  have "bind_keys m ks (Suc i) (bind_key m k i p) key = bind_key m k i p key"
    using Cons.IH Cons.prems by simp
  also have "\<dots> = p key" using Cons.prems by (simp add: bind_key_other)
  finally show ?case by simp
qed

lemma match_other:
  assumes "k < length (routes r)"
    and "re_exec (re (routes r ! k)) path = Some m"
    and "\<forall>j<k. re_exec (re (routes r ! j)) path = None"
    and "key \<notin> {Str ''router'', Str ''length'', Str ''route''}"
    and "key \<notin> key_prop ` set (keys (re (routes r ! k)))"
  shows "match this r path seed key = seed key"
  using match_first [OF assms(1-3), of this seed] assms(4) assms(5)
  by (simp add: bind_keys_other)

lemma foldl_map_add_other:
  "\<forall>step\<in>set os. key \<notin> dom step \<Longrightarrow> foldl (++) p os key = p key"
proof (induction os arbitrary: p)
  case Nil
  show ?case by simp
next
  case (Cons step os)
  have "foldl (++) (p ++ step) os key = (p ++ step) key" using Cons by simp
  also have "\<dots> = p key" using Cons.prems by (simp add: map_add_dom_app_simps)
  finally show ?case by simp
qed

lemma dom_foldl_map_add: "dom (foldl (++) p os) = dom p \<union> \<Union> (dom ` set os)"
  by (induction os arbitrary: p) auto

text \<open>
  Claim C10 (no rollback, same object). Let a step of the selected route fail after the
  steps before it resolved. Then the promise of \<^verbatim>\<open>exec\<close> resolves, and it resolves to the
  object at the address \<open>a\<close>, the very object that \<^verbatim>\<open>exec\<close> was seeded with. The properties
  of that object are then those that the failing step left, with \<^verbatim>\<open>error\<close> added: they are
  not reset to those of the seed, of the matched bag or of the bag before the failing
  step. The matched bag holds the properties of the seed and the captures of the route,
  and object steps before the failure have merged their properties into the bag that the
  failing step received. When the steps before the failure are object steps and the
  failing step leaves the bag as it found it, the resolved object has every property of
  the seed, every capture, every property of those object steps and \<^verbatim>\<open>error\<close>, and each
  property of the seed that neither \<^verbatim>\<open>match\<close> nor a step nor \<^verbatim>\<open>error\<close> has written still
  has the seed's value.
\<close>

theorem exec_keeps_partial_bag:
  assumes "this < length H" and "k < length (routes (H ! this))"
    and "re_exec (re (routes (H ! this) ! k)) path = Some m"
    and "\<forall>j<k. re_exec (re (routes (H ! this) ! j)) path = None"
    and "steps (routes (H ! this) ! k) = pre @ s # post"
    and "mapSeries (run_step (exec n H dispatch) dispatch a) pre 0 w
           (match this (H ! this) path seed) = Some (Resolves vs, w1, p1, tr)"
    and "run_step (exec n H dispatch) dispatch a s w1 p1 = Some (Rejects e, w2, p2)"
  shows "map_option settled (exec (Suc n) H dispatch this w path a seed) = Some (Resolves a)
       \<and> map_option bag_of (exec (Suc n) H dispatch this w path a seed)
           = Some (p2(Str ''error'' \<mapsto> VErr e))
       \<and> dom seed \<union> key_prop ` set (keys (re (routes (H ! this) ! k)))
           \<subseteq> dom (match this (H ! this) path seed)
       \<and> (\<forall>os. pre = map ObjStep os \<longrightarrow>
             p1 = foldl (++) (match this (H ! this) path seed) os)
       \<and> (\<forall>os. pre = map ObjStep os \<and> p2 = p1 \<longrightarrow>
             (\<exists>r. exec (Suc n) H dispatch this w path a seed = Some r
                \<and> settled r = Resolves a
                \<and> dom seed \<union> key_prop ` set (keys (re (routes (H ! this) ! k)))
                      \<union> \<Union> (dom ` set os) \<union> {Str ''error''} \<subseteq> dom (bag_of r)
                \<and> (\<forall>key. key \<notin> {Str ''router'', Str ''length'', Str ''route'', Str ''error''}
                            \<union> key_prop ` set (keys (re (routes (H ! this) ! k)))
                            \<union> \<Union> (dom ` set os)
                        \<longrightarrow> bag_of r key = seed key)))"
proof -
  let ?pm = "match this (H ! this) path seed"
  let ?ks = "keys (re (routes (H ! this) ! k))"
  have ex: "exec (Suc n) H dispatch this w path a seed =
      Some (Resolves a, w2, p2(Str ''error'' \<mapsto> VErr e), [0..<Suc (length pre)])"
    using exec_matched [OF assms(1-4)] mapSeries_stops [OF assms(6) assms(7)] assms(5)
    by simp
  have c1: "map_option settled (exec (Suc n) H dispatch this w path a seed) = Some (Resolves a)"
    using ex by (simp add: settled_def)
  have c2: "map_option bag_of (exec (Suc n) H dispatch this w path a seed)
           = Some (p2(Str ''error'' \<mapsto> VErr e))"
    using ex by (simp add: bag_of_def)
  have c3: "dom seed \<union> key_prop ` set ?ks \<subseteq> dom ?pm"
    using dom_match [OF assms(2-4)] by blast
  have c4: "p1 = foldl (++) ?pm os" if "pre = map ObjStep os" for os
    using assms(6) that by (simp add: mapSeries_ObjSteps)
  have c5: "\<exists>r. exec (Suc n) H dispatch this w path a seed = Some r
                \<and> settled r = Resolves a
                \<and> dom seed \<union> key_prop ` set ?ks \<union> \<Union> (dom ` set os) \<union> {Str ''error''}
                      \<subseteq> dom (bag_of r)
                \<and> (\<forall>key. key \<notin> {Str ''router'', Str ''length'', Str ''route'', Str ''error''}
                            \<union> key_prop ` set ?ks \<union> \<Union> (dom ` set os)
                        \<longrightarrow> bag_of r key = seed key)"
    if h: "pre = map ObjStep os \<and> p2 = p1" for os
  proof -
    let ?r = "(Resolves a, w2, p2(Str ''error'' \<mapsto> VErr e), [0..<Suc (length pre)])"
    have p2: "p2 = foldl (++) ?pm os" using c4 [of os] h by simp
    have d: "dom (bag_of ?r) = dom ?pm \<union> \<Union> (dom ` set os) \<union> {Str ''error''}"
      by (simp add: bag_of_def p2 dom_foldl_map_add)
    have incl: "dom seed \<union> key_prop ` set ?ks \<union> \<Union> (dom ` set os) \<union> {Str ''error''}
                  \<subseteq> dom (bag_of ?r)"
      unfolding d using c3 by auto
    have keep: "bag_of ?r key = seed key"
      if "key \<notin> {Str ''router'', Str ''length'', Str ''route'', Str ''error''}
                            \<union> key_prop ` set ?ks \<union> \<Union> (dom ` set os)" for key
    proof -
      have "bag_of ?r key = foldl (++) ?pm os key" using that by (simp add: bag_of_def p2)
      also have "\<dots> = ?pm key" using that by (intro foldl_map_add_other) blast
      also have "\<dots> = seed key" using that by (intro match_other [OF assms(2-4)]) blast+
      finally show ?thesis .
    qed
    have "settled ?r = Resolves a" by (simp add: settled_def)
    with ex incl keep show ?thesis by blast
  qed
  from c1 c2 c3 c4 c5 show ?thesis by blast
qed


text \<open>
  On \<open>pipeline_router\<close> with the seed \<^verbatim>\<open>{ tab: 'info' }\<close>, the bag that \<^verbatim>\<open>exec\<close> resolves
  with holds the seed's property, the capture, the object step's property and the error.
\<close>

theorem exec_keeps_partial_bag_witness:
  "\<exists>r. exec (Suc 0) [pipeline_router] no_actions 0 0 ''/users/42'' 5 [Str ''tab'' \<mapsto> VStr ''info'']
          = Some r
       \<and> settled r = Resolves 5
       \<and> get (bag_of r) (Str ''error'') = VErr (Error ''boom'')
       \<and> get (bag_of r) (Str ''id'') = VStr ''42''
       \<and> get (bag_of r) (Str ''role'') = VStr ''member''
       \<and> get (bag_of r) (Str ''tab'') = VStr ''info''"
  using exec_keeps_partial_bag [where this = 0 and H = "[pipeline_router]" and k = 0
      and path = "''/users/42''" and m = "[Some ''42'']"
      and pre = "[ObjStep [Str ''role'' \<mapsto> VStr ''member'']]" and s = boom and post = "[tick]"
      and n = 0 and dispatch = no_actions and w = 0 and a = 5 and seed = "[Str ''tab'' \<mapsto> VStr ''info'']"
      and vs = "[Map.empty]" and ?w1.0 = 0
      and ?p1.0 = "match 0 pipeline_router ''/users/42'' [Str ''tab'' \<mapsto> VStr ''info'']
                     ++ [Str ''role'' \<mapsto> VStr ''member'']"
      and tr = "[0]" and e = "Error ''boom''" and ?w2.0 = "Suc 0"
      and ?p2.0 = "match 0 pipeline_router ''/users/42'' [Str ''tab'' \<mapsto> VStr ''info'']
                     ++ [Str ''role'' \<mapsto> VStr ''member'']"]
  by (auto simp: pipeline_router_def new_router_def param_pattern_def boom_def get_def
      match_def bind_key_def capture_def str_key_id settled_def)

subsection \<open>Steps and bound keys\<close>

text \<open>
  A function step settles with the bag that the function left: the object that it resolves
  to is not merged.
\<close>

lemma function_result_not_merged:
  "f w p = (Resolves v, w', p) \<Longrightarrow>
   run_step ce d a (FunStep f) w p = Some (Resolves v, w', p)"
  by simp

text \<open>
  \<^verbatim>\<open>Object.assign(params, step)\<close> gives the step's value to every key of the step, bound
  before or not.
\<close>

lemma object_step_assigns:
  "run_step ce d a (ObjStep step) w p = Some (Resolves Map.empty, w, p ++ step)"
  "step key = Some v \<Longrightarrow> (p ++ step) key = Some v"
  by simp_all

text \<open>
  Claim C3 (defaults never override a bound key) does not hold of the code. The route
  \<^verbatim>\<open>/users/:id\<close> with the object step \<^verbatim>\<open>{ id: 'admin' }\<close>, run on \<^verbatim>\<open>/users/42\<close>: after
  \<^verbatim>\<open>match\<close> the capture \<^verbatim>\<open>id\<close> is \<^verbatim>\<open>42\<close>, and \<^verbatim>\<open>exec\<close> resolves with \<^verbatim>\<open>id\<close> equal to
  \<^verbatim>\<open>admin\<close>.
\<close>

theorem object_step_overrides_capture:
  "get (match 0 override_router ''/users/42'' Map.empty) (Str ''id'') = VStr ''42''
   \<and> map_option (\<lambda>r. get (bag_of r) (Str ''id''))
        (exec (Suc 0) [override_router] no_actions 0 0 ''/users/42'' 5 Map.empty)
       = Some (VStr ''admin'')"
  by (simp add: override_router_def new_router_def param_pattern_def exec_body_def
      match_def bind_key_def capture_def str_key_id get_def bag_of_def)

subsection \<open>Enough fuel\<close>

text \<open>
  On a well-formed heap \<^verbatim>\<open>exec\<close> returns as soon as the fuel covers the routers allocated
  from the called one on: every step settles, and a delegation goes to a later router.
\<close>

lemma find_route_range:
  "find_route rs i path p = (Some k, p') \<Longrightarrow> i \<le> k \<and> k < i + length rs"
proof (induction rs arbitrary: i)
  case Nil
  then show ?case by simp
next
  case (Cons r rs)
  show ?case
  proof (cases "re_exec (re r) path")
    case None
    with Cons.prems have "find_route rs (Suc i) path p = (Some k, p')" by simp
    from Cons.IH [OF this] show ?thesis by simp
  next
    case (Some m)
    with Cons.prems show ?thesis by simp
  qed
qed

lemma match_route_cases:
  "get (match this r path seed) (Str ''route'') = VUndef
   \<or> (\<exists>k<length (routes r). get (match this r path seed) (Str ''route'') = VRoute this k)"
proof -
  obtain found p' where f: "find_route (routes r) 0 path (seed(Str ''router'' \<mapsto> VRouter this)) = (found, p')"
    by (cases "find_route (routes r) 0 path (seed(Str ''router'' \<mapsto> VRouter this))") auto
  show ?thesis
  proof (cases found)
    case None
    with f show ?thesis by (simp add: match_def get_def)
  next
    case (Some k)
    with f find_route_range [of "routes r" 0 path _ k p'] have "k < length (routes r)" by simp
    with f Some show ?thesis by (simp add: match_def get_def)
  qed
qed

lemma mapSeries_total:
  "(\<And>s w p. s \<in> set ss \<Longrightarrow> f s w p \<noteq> None) \<Longrightarrow> mapSeries f ss i w p \<noteq> None"
proof (induction ss arbitrary: i w p)
  case Nil
  show ?case by simp
next
  case (Cons s ss)
  have a: "f s w p \<noteq> None" using Cons.prems by simp
  have b: "mapSeries f ss (Suc i) w' p' \<noteq> None" for w' p'
    using Cons.IH Cons.prems by simp
  obtain pr w1 p1 where fs: "f s w p = Some (pr, w1, p1)" using a by (cases "f s w p") auto
  show ?case
  proof (cases pr)
    case (Rejects e)
    with fs show ?thesis by simp
  next
    case (Resolves v)
    obtain x where "mapSeries f ss (Suc i) w1 p1 = Some x" using b [of w1 p1] by auto
    with fs Resolves show ?thesis
      by (cases x) (auto split: promise.splits)
  qed
qed

lemma exec_total:
  "wf_heap H \<Longrightarrow> this < length H \<Longrightarrow> length H - this \<le> n \<Longrightarrow>
   exec n H dispatch this w path a seed \<noteq> None"
proof (induction n arbitrary: this w path seed)
  case 0
  then show ?case by simp
next
  case (Suc n)
  let ?pm = "match this (H ! this) path seed"
  from match_route_cases [of this "H ! this" path seed]
  show ?case
  proof
    assume "get ?pm (Str ''route'') = VUndef"
    then have "exec_body (exec n H dispatch) H dispatch this w path a seed
            = Some ((return_params a \<circ> catch_error)
                 (Rejects (Error ''Not found'') :: obj list promise, w, ?pm, []))"
      using Suc.prems(2) by (simp add: exec_body_def)
    then show ?thesis by simp
  next
    assume "\<exists>k<length (routes (H ! this)). get ?pm (Str ''route'') = VRoute this k"
    then obtain k where k: "k < length (routes (H ! this))" "get ?pm (Str ''route'') = VRoute this k"
      by blast
    have step: "run_step (exec n H dispatch) dispatch a s w' p' \<noteq> None"
      if "s \<in> set (steps (routes (H ! this) ! k))" for s w' p'
    proof (cases s)
      case (Delegate c)
      have "routes (H ! this) ! k \<in> set (routes (H ! this))" using k(1) by simp
      moreover have "Delegate c \<in> set (steps (routes (H ! this) ! k))" using that Delegate by simp
      ultimately have c: "this < c" "c < length H"
        using Suc.prems(1) Suc.prems(2) unfolding wf_heap_def by blast+
      then have "length H - c \<le> n" using Suc.prems(3) by simp
      note ih = Suc.IH [OF Suc.prems(1) c(2) this]
      let ?idx = "decrement (to_number (get p' (Str ''length'')))"
      let ?p1 = "p'(Str ''length'' \<mapsto> ?idx)"
      obtain x where x: "exec n H dispatch c w' (''/'' @ to_string (get ?p1 (to_key ?idx)))
                           a (?p1(to_key ?idx := None)) = Some x"
        using ih by blast
      obtain pr wx px tx where "x = (pr, wx, px, tx)" by (cases x) auto
      with x have "delegation (exec n H dispatch) c w' a p' \<noteq> None"
        by (cases pr) (simp_all add: delegation_def Let_def)
      then show ?thesis using Delegate by simp
    qed (simp_all)
    have "mapSeries (run_step (exec n H dispatch) dispatch a) (steps (routes (H ! this) ! k)) 0 w ?pm
            \<noteq> None"
      by (rule mapSeries_total) (rule step)
    then obtain x where
      x: "mapSeries (run_step (exec n H dispatch) dispatch a) (steps (routes (H ! this) ! k)) 0 w ?pm
            = Some x" by blast
    have "exec_body (exec n H dispatch) H dispatch this w path a seed
            = Some ((return_params a \<circ> catch_error) x)"
      using k x Suc.prems(2) by (simp add: exec_body_def)
    then show ?thesis by simp
  qed
qed

section \<open>Properties of Router.child\<close>

lemma bind_keys_snoc:
  "bind_keys m (ks @ [key]) i p = bind_key m key (i + length ks) (bind_keys m ks i p)"
  by (induction ks arbitrary: i p) simp_all

lemma match_wildcard_last:
  assumes "k < length (routes r)"
    and "re_exec (re (routes r ! k)) path = Some m"
    and "\<forall>j<k. re_exec (re (routes r ! j)) path = None"
    and "keys (re (routes r ! k)) = ks @ [Pos q]"
  shows "match this r path seed (Str ''length'') = Some (VNum (int q + 1))"
    and "match this r path seed (Idx (int q)) = Some (capture m (length ks))"
  using match_first [OF assms(1-3)] assms(4)
  by (simp_all add: bind_keys_snoc bind_key_def)

lemma delegation_numeric:
  assumes "get p (Str ''length'') = VNum l"
  shows "delegation ce c w a p =
     (case ce c w (''/'' @ to_string (get p (Idx (l - 1)))) a
             (p(Str ''length'' \<mapsto> VNum (l - 1), Idx (l - 1) := None)) of
        None \<Rightarrow> None
      | Some (Resolves u, w', p', tr) \<Rightarrow> Some (Resolves p', w', p')
      | Some (Rejects e, w', p', tr) \<Rightarrow> Some (Rejects e, w', p'))"
  using assms by (simp add: delegation_def Let_def get_def)

lemma child_registers:
  assumes "this < length H" and "child pathToRegexp H this tpl stps = (H1, c)"
  shows "c = length H" and "length H1 = Suc (length H)"
    and "routes (H1 ! this) = routes (H ! this) @
           [\<lparr>rpath = normalizePath tpl @ ''/*'',
             re = pathToRegexp (normalizePath tpl @ ''/*''),
             steps = stps @ [Delegate c]\<rparr>]"
    and "H1 ! c = \<lparr>basePath = normalizePath (basePath (H ! this)) @ normalizePath tpl,
                    baseRoute = Some (this, length (routes (H ! this))),
                    parentRouter = Some this, routes = []\<rparr>"
    and "\<forall>r<length H. r \<noteq> this \<longrightarrow> H1 ! r = H ! r"
  using assms
  by (auto simp: child_def Let_def add_def add_route_def new_route_def push_step_def
      new_router_def nth_append nth_list_update)

lemma str_key_postId: "str_key ''postId'' = Str ''postId''"
  by (simp add: str_key_def canon_nat_def is_digit_def)

lemma normalize_users: "normalizePath ''/users/'' = ''/users''"
  by (simp add: normalizePath_def)

lemma nested_heap_eq:
  "nested_heap =
    [new_router\<lparr>routes := [\<lparr>rpath = ''/users/*'', re = wild_pattern ''/users/'',
                              steps = [Delegate 1]\<rparr>]\<rparr>,
     \<lparr>basePath = ''/users'', baseRoute = Some (0, 0), parentRouter = Some 0,
      routes = [\<lparr>rpath = ''/posts/:postId'', re = param_pattern ''/posts/'' ''postId'',
                 steps = []\<rparr>]\<rparr>]"
  by (simp add: nested_heap_def child_def Let_def add_def add_route_def new_route_def
      push_step_def new_router_def normalize_users sample_compile_def normalizePath_def)


lemma child_sample:
  "child sample_compile [new_router] 0 ''/users/'' [] =
     ([new_router\<lparr>routes := [\<lparr>rpath = ''/users/*'', re = wild_pattern ''/users/'',
                              steps = [Delegate 1]\<rparr>]\<rparr>,
       \<lparr>basePath = ''/users'', baseRoute = Some (0, 0), parentRouter = Some 0, routes = []\<rparr>], 1)"
  by (simp add: child_def Let_def add_def add_route_def new_route_def
      push_step_def new_router_def normalize_users sample_compile_def normalizePath_def)

lemma nested_match:
  "match 0 (nested_heap ! 0) ''/users/posts/7'' Map.empty =
     [Str ''router'' \<mapsto> VRouter 0, Idx 0 \<mapsto> VStr ''posts/7'', Str ''length'' \<mapsto> VNum 1,
      Str ''route'' \<mapsto> VRoute 0 0]"
  by (simp add: nested_heap_eq match_def new_router_def wild_pattern_def bind_key_def capture_def)

lemma nested_child_exec:
  "exec (Suc 0) nested_heap no_actions (Suc 0) w ''/posts/7'' a p =
     Some (Resolves a, w,
           p(Str ''router'' \<mapsto> VRouter 1, Str ''length'' \<mapsto> VNum 0,
             Str ''postId'' \<mapsto> VStr ''7'', Str ''route'' \<mapsto> VRoute 1 0), [])"
  by (simp add: nested_heap_eq exec_body_def match_def param_pattern_def bind_key_def
      capture_def str_key_postId get_def)


text \<open>
  Claim C8 (delegation to a child router). \<^verbatim>\<open>child(tpl, ...stps)\<close> on the router \<open>this\<close>
  appends to its routes one route for the template, stripped of trailing slashes and
  followed by \<^verbatim>\<open>/*\<close>, whose steps are \<open>stps\<close> followed by the delegation step, and
  allocates the child with the concatenated base path and no routes. Later, on a heap
  \<open>H2\<close> that still holds that route at its index \<open>k\<close>: when the route is the one that
  \<^verbatim>\<open>match\<close> selects for the path, its last key is the numeric key \<open>q\<close> of the wildcard with
  the capture \<open>rest\<close>, and the steps \<open>stps\<close> resolve and leave \<^verbatim>\<open>length\<close> and the property
  \<open>q\<close> as \<^verbatim>\<open>match\<close> bound them, then \<^verbatim>\<open>exec\<close> of the parent is the \<^verbatim>\<open>exec\<close> of the child
  on the path \<^verbatim>\<open>"/" + rest\<close>, with the same store and dispatcher, seeded with the bag
  without the property \<open>q\<close> and with \<^verbatim>\<open>length\<close> decremented to \<open>q\<close>; the parent resolves
  with the child's store and bag.
\<close>

theorem child_delegates:
  assumes "this < length H"
    and "child pathToRegexp H this tpl stps = (H1, c)"
    and "this < length H2"
    and "k = length (routes (H ! this))"
    and "k < length (routes (H2 ! this))"
    and "routes (H2 ! this) ! k = routes (H1 ! this) ! k"
    and "\<forall>j<k. re_exec (re (routes (H2 ! this) ! j)) path = None"
    and "re_exec (pathToRegexp (normalizePath tpl @ ''/*'')) path = Some m"
    and "keys (pathToRegexp (normalizePath tpl @ ''/*'')) = ks @ [Pos q]"
    and "capture m (length ks) = VStr rest"
    and "mapSeries (run_step (exec (Suc n) H2 dispatch) dispatch a) stps 0 w
           (match this (H2 ! this) path seed) = Some (Resolves vs, w1, p1, tr)"
    and "p1 (Str ''length'') = match this (H2 ! this) path seed (Str ''length'')"
    and "p1 (Idx (int q)) = match this (H2 ! this) path seed (Idx (int q))"
  shows "routes (H1 ! this) = routes (H ! this) @
           [\<lparr>rpath = normalizePath tpl @ ''/*'',
             re = pathToRegexp (normalizePath tpl @ ''/*''),
             steps = stps @ [Delegate c]\<rparr>]
       \<and> c = length H
       \<and> H1 ! c = \<lparr>basePath = normalizePath (basePath (H ! this)) @ normalizePath tpl,
                    baseRoute = Some (this, k), parentRouter = Some this, routes = []\<rparr>
       \<and> exec (Suc (Suc n)) H2 dispatch this w path a seed =
           map_option (\<lambda>r. (Resolves a, store_of r, bag_of r, [0..<Suc (length stps)]))
             (exec (Suc n) H2 dispatch c w1 (''/'' @ rest) a
                (p1(Str ''length'' \<mapsto> VNum (int q), Idx (int q) := None)))"
proof -
  note reg = child_registers [OF assms(1) assms(2)]
  let ?rt = "routes (H2 ! this) ! k"
  have rt: "?rt = \<lparr>rpath = normalizePath tpl @ ''/*'',
             re = pathToRegexp (normalizePath tpl @ ''/*''),
             steps = stps @ [Delegate c]\<rparr>"
    using assms(6) reg(3) assms(4) by simp
  have m: "re_exec (re ?rt) path = Some m" using rt assms(8) by simp
  have ks: "keys (re ?rt) = ks @ [Pos q]" using rt assms(9) by simp
  have st: "steps ?rt = stps @ [Delegate c]" using rt by simp
  note wl = match_wildcard_last [OF assms(5) m assms(7) ks, of this seed]
  have len: "get p1 (Str ''length'') = VNum (int q + 1)"
    using wl(1) assms(12) by (simp add: get_def)
  have cap: "get p1 (Idx (int q)) = VStr rest"
    using wl(2) assms(13) assms(10) by (simp add: get_def)
  let ?child = "exec (Suc n) H2 dispatch c w1 (''/'' @ rest) a
                (p1(Str ''length'' \<mapsto> VNum (int q), Idx (int q) := None))"
  have del: "delegation (exec (Suc n) H2 dispatch) c w1 a p1 =
      (case ?child of None \<Rightarrow> None
       | Some (Resolves u, w', p', tr) \<Rightarrow> Some (Resolves p', w', p')
       | Some (Rejects e, w', p', tr) \<Rightarrow> Some (Rejects e, w', p'))"
    using delegation_numeric [OF len, of "exec (Suc n) H2 dispatch" c w1 a] cap
    by (simp del: exec.simps)
  have trace: "tr = [0..<length stps]" using mapSeries_resolves_trace [OF assms(11)] by simp
  have ex: "exec (Suc (Suc n)) H2 dispatch this w path a seed =
     map_option (return_params a \<circ> catch_error)
       (mapSeries (run_step (exec (Suc n) H2 dispatch) dispatch a) (stps @ [Delegate c]) 0 w
          (match this (H2 ! this) path seed))"
    using exec_matched [OF assms(3) assms(5) m assms(7), of "Suc n" dispatch w a seed] st
    by (simp del: exec.simps)
  have run: "exec (Suc (Suc n)) H2 dispatch this w path a seed =
           map_option (\<lambda>r. (Resolves a, store_of r, bag_of r, [0..<Suc (length stps)])) ?child"
  proof (cases ?child)
    case None
    then show ?thesis
      unfolding ex mapSeries_append [OF assms(11)]
      by (simp add: del del: exec.simps)
  next
    case (Some r)
    obtain pr w' p' tr' where r: "r = (pr, w', p', tr')" by (cases r) auto
    have "pr = Resolves a" using exec_resolves [OF Some] by (simp add: r settled_def)
    with Some r show ?thesis
      unfolding ex mapSeries_append [OF assms(11)]
      by (simp add: del trace store_of_def bag_of_def del: exec.simps)
  qed
  show ?thesis using reg(1) reg(3) reg(4) run assms(4) by simp
qed

text \<open>
  On \<open>nested_heap\<close> the path \<^verbatim>\<open>/users/posts/7\<close> is delegated as \<^verbatim>\<open>/posts/7\<close> to the child,
  which binds \<^verbatim>\<open>postId\<close>; the wildcard capture is gone from the bag.
\<close>

theorem child_delegates_witness:
  "\<exists>r. exec (Suc (Suc 0)) nested_heap no_actions 0 0 ''/users/posts/7'' 3 Map.empty = Some r
       \<and> settled r = Resolves 3
       \<and> get (bag_of r) (Str ''postId'') = VStr ''7''
       \<and> get (bag_of r) (Str ''router'') = VRouter 1
       \<and> get (bag_of r) (Str ''route'') = VRoute 1 0
       \<and> bag_of r (Idx 0) = None
       \<and> bag_of r (Str ''error'') = None"
proof -
  let ?H1 = "[new_router\<lparr>routes := [\<lparr>rpath = ''/users/*'', re = wild_pattern ''/users/'',
                              steps = [Delegate 1]\<rparr>]\<rparr>,
       \<lparr>basePath = ''/users'', baseRoute = Some (0, 0), parentRouter = Some 0, routes = []\<rparr>]
       :: nat heap"
  let ?pm = "match 0 (nested_heap ! 0) ''/users/posts/7'' Map.empty"
  have a1: "0 < length [new_router :: nat router]" by simp
  have a2: "child sample_compile [new_router] 0 ''/users/'' [] = (?H1, 1)" by (rule child_sample)
  have a3: "0 < length nested_heap" by (simp add: nested_heap_eq)
  have a4: "0 = length (routes ([new_router :: nat router] ! 0))" by (simp add: new_router_def)
  have a5: "0 < length (routes (nested_heap ! 0))" by (simp add: nested_heap_eq new_router_def)
  have a6: "routes (nested_heap ! 0) ! 0 = routes (?H1 ! 0) ! 0"
    by (simp add: nested_heap_eq new_router_def)
  have a7: "\<forall>j<0. re_exec (re (routes (nested_heap ! 0) ! j)) ''/users/posts/7'' = None" by simp
  have a8: "re_exec (sample_compile (normalizePath ''/users/'' @ ''/*'')) ''/users/posts/7''
              = Some [Some ''posts/7'']"
    by (simp add: normalize_users sample_compile_def wild_pattern_def)
  have a9: "keys (sample_compile (normalizePath ''/users/'' @ ''/*'')) = [] @ [Pos 0]"
    by (simp add: normalize_users sample_compile_def wild_pattern_def)
  have a10: "capture [Some ''posts/7''] (length ([] :: key_name list)) = VStr ''posts/7''"
    by (simp add: capture_def)
  have a11: "mapSeries (run_step (exec (Suc 0) nested_heap no_actions) no_actions 3) [] 0 0 ?pm
               = Some (Resolves [], 0, ?pm, [])" by simp
  have a12: "?pm (Str ''length'') = ?pm (Str ''length'')" by simp
  have a13: "?pm (Idx (int 0)) = ?pm (Idx (int 0))" by simp
  from child_delegates [OF a1 a2 a3 a4 a5 a6 a7 a8 a9 a10 a11 a12 a13]
  have "exec (Suc (Suc 0)) nested_heap no_actions 0 0 ''/users/posts/7'' 3 Map.empty =
           map_option (\<lambda>r. (Resolves 3, store_of r, bag_of r, [0..<Suc (length ([] :: nat step list))]))
             (exec (Suc 0) nested_heap no_actions 1 0 (''/'' @ ''posts/7'') 3
                (?pm(Str ''length'' \<mapsto> VNum (int 0), Idx (int 0) := None)))"
    by blast
  then show ?thesis
    by (simp add: nested_child_exec nested_match bag_of_def store_of_def get_def settled_def
        del: exec.simps)
qed

subsection \<open>Heaps built by add and child\<close>

text \<open>
  \<^verbatim>\<open>add\<close> and \<^verbatim>\<open>child\<close>, called with steps of the user (none of them a delegation step of
  another router), keep the heap well-formed; so on a heap built from a root router by
  these two, \<^verbatim>\<open>exec\<close> returns once the fuel covers the number of routers.
\<close>

lemma wf_heapD:
  "wf_heap H \<Longrightarrow> r < length H \<Longrightarrow> rt \<in> set (routes (H ! r)) \<Longrightarrow>
   Delegate c \<in> set (steps rt) \<Longrightarrow> r < c \<and> c < length H"
  unfolding wf_heap_def by blast

lemma wf_heapI:
  "(\<And>r rt c. r < length H \<Longrightarrow> rt \<in> set (routes (H ! r)) \<Longrightarrow>
      Delegate c \<in> set (steps rt) \<Longrightarrow> r < c \<and> c < length H) \<Longrightarrow> wf_heap H"
  unfolding wf_heap_def by blast

lemma add_length: "length (fst (add pathToRegexp H this path stps)) = length H"
  by (simp add: add_def)

lemma add_routes_this:
  "this < length H \<Longrightarrow>
   routes (fst (add pathToRegexp H this path stps) ! this) =
     routes (H ! this) @ [new_route pathToRegexp path stps]"
  by (simp add: add_def add_route_def)

lemma add_other:
  "r \<noteq> this \<Longrightarrow> fst (add pathToRegexp H this path stps) ! r = H ! r"
  by (simp add: add_def)

lemma wf_heap_add:
  assumes "wf_heap H" and "this < length H" and "\<forall>c. Delegate c \<notin> set stps"
  shows "wf_heap (fst (add pathToRegexp H this path stps))"
proof (rule wf_heapI)
  fix r rt c
  let ?H' = "fst (add pathToRegexp H this path stps)"
  assume r: "r < length ?H'" and rt: "rt \<in> set (routes (?H' ! r))"
    and d: "Delegate c \<in> set (steps rt)"
  have rH: "r < length H" using r by (simp only: add_length)
  have "rt \<in> set (routes (H ! r))"
  proof (cases "r = this")
    case True
    have "rt \<in> set (routes (H ! this) @ [new_route pathToRegexp path stps])"
      using rt True add_routes_this [OF assms(2), of pathToRegexp path stps] by simp
    then have "rt \<in> set (routes (H ! this)) \<or> rt = new_route pathToRegexp path stps"
      unfolding set_append by (simp only: Un_iff list.set insert_iff empty_iff) blast
    moreover have "rt \<noteq> new_route pathToRegexp path stps"
    proof
      assume "rt = new_route pathToRegexp path stps"
      then have "steps rt = stps" by (simp add: new_route_def)
      with d assms(3) show False by simp
    qed
    ultimately show ?thesis using True by simp
  next
    case False
    then show ?thesis using rt add_other [OF False, of pathToRegexp H path stps] by simp
  qed
  from wf_heapD [OF assms(1) rH this d]
  show "r < c \<and> c < length ?H'" by (simp only: add_length)
qed

lemma wf_heap_root: "wf_heap [new_router]"
  by (simp add: wf_heap_def new_router_def)


lemma wf_heap_child:
  assumes "wf_heap H" and "this < length H" and "\<forall>c. Delegate c \<notin> set stps"
  shows "wf_heap (fst (child pathToRegexp H this path stps))"
proof -
  obtain H1 c where ch: "child pathToRegexp H this path stps = (H1, c)"
    by (cases "child pathToRegexp H this path stps") blast
  note reg = child_registers [OF assms(2) ch]
  let ?new = "\<lparr>rpath = normalizePath path @ ''/*'',
                 re = pathToRegexp (normalizePath path @ ''/*''),
                 steps = stps @ [Delegate c]\<rparr>"
  have "wf_heap H1"
  proof (rule wf_heapI)
    fix r rt d
    assume r: "r < length H1" and rt: "rt \<in> set (routes (H1 ! r))"
      and d: "Delegate d \<in> set (steps rt)"
    have "r = this \<or> r = c \<or> (r < length H \<and> r \<noteq> this)"
      using r reg(1) reg(2) by linarith
    then show "r < d \<and> d < length H1"
    proof (elim disjE)
      assume 1: "r = this"
      have "rt \<in> set (routes (H ! this) @ [?new])" using rt 1 reg(3) by simp
      then have "rt \<in> set (routes (H ! this)) \<or> rt = ?new"
        unfolding set_append by (simp only: Un_iff list.set insert_iff empty_iff) blast
      then show ?thesis
      proof
        assume "rt \<in> set (routes (H ! this))"
        from wf_heapD [OF assms(1) assms(2) this d] show ?thesis using 1 reg(2) by simp
      next
        assume "rt = ?new"
        then have "steps rt = stps @ [Delegate c]" by simp
        with d assms(3) have "d = c" by simp
        then show ?thesis using 1 reg(1) reg(2) assms(2) by simp
      qed
    next
      assume 2: "r = c"
      have "routes (H1 ! c) = []" by (simp add: reg(4))
      with rt 2 show ?thesis by simp
    next
      assume 3: "r < length H \<and> r \<noteq> this"
      with reg(5) have "H1 ! r = H ! r" by simp
      with rt have "rt \<in> set (routes (H ! r))" by simp
      from wf_heapD [OF assms(1) _ this d] 3 show ?thesis using reg(2) by simp
    qed
  qed
  then show ?thesis by (simp add: ch)
qed

lemma exec_total_after_child:
  assumes "wf_heap H" and "this < length H" and "\<forall>c. Delegate c \<notin> set stps"
    and "r \<le> length H"
  shows "exec (Suc (length H)) (fst (child pathToRegexp H this path stps)) dispatch r w p a seed \<noteq> None"
proof -
  obtain H1 c where ch: "child pathToRegexp H this path stps = (H1, c)"
    by (cases "child pathToRegexp H this path stps") blast
  note reg = child_registers [OF assms(2) ch]
  have a: "wf_heap H1" using wf_heap_child [OF assms(1-3), of pathToRegexp path] by (simp add: ch)
  have b: "r < length H1" using assms(4) reg(2) by simp
  have c: "length H1 - r \<le> Suc (length H)" using reg(2) by simp
  have "exec (Suc (length H)) H1 dispatch r w p a seed \<noteq> None"
    using exec_total [OF a b c] .
  then show ?thesis by (simp add: ch del: exec.simps)
qed

section \<open>Properties of the navigation controller\<close>

lemma navigate_start_ctl: "fst (snd (navigate_start c w path)) = ctl_after c path"
  by (simp add: ctl_after_def navigate_start_def Let_def)

lemma ctl_after_allocated: "allocated c \<le> allocated (ctl_after c path)"
  by (simp add: ctl_after_def navigate_start_def Let_def)

lemma ctl_after_current:
  "fst (currentHandle (ctl_after c path)) = fst (currentHandle c)
   \<or> fst (currentHandle (ctl_after c path)) = allocated c"
  by (simp add: ctl_after_def navigate_start_def Let_def)

lemma later_calls_keep_superseded:
  "h < fst (currentHandle c) \<Longrightarrow> h < allocated c \<Longrightarrow>
   h < fst (currentHandle (foldl ctl_after c ps)) \<and> h < allocated (foldl ctl_after c ps)"
proof (induction ps arbitrary: c)
  case Nil
  then show ?case by simp
next
  case (Cons p ps)
  have "h < fst (currentHandle (ctl_after c p))"
    using ctl_after_current [of c p] Cons.prems by auto
  moreover have "h < allocated (ctl_after c p)"
    using ctl_after_allocated [of c p] Cons.prems by simp
  ultimately show ?case using Cons.IH by simp
qed

lemma commit_tap_discards:
  "fst (currentHandle c) \<noteq> h \<Longrightarrow> commit_tap c h path r = r"
proof -
  assume a: "fst (currentHandle c) \<noteq> h"
  obtain pr w p tr where r: "r = (pr, w, p, tr)" by (cases r) auto
  show ?thesis using a by (cases pr) (simp_all add: r)
qed

text \<open>
  Claim C1 (preemption). Let a navigation A to \<open>pathA\<close> pass the guard and get the handle
  \<open>hA\<close>, and let a navigation B to \<open>pathB\<close> pass the guard after it and get the handle
  \<open>hB\<close>. Then the paths and the handles differ; when B's chain reaches its second
  \<^verbatim>\<open>tap\<close> fulfilled, B writes \<^verbatim>\<open>location.hash\<close> and commits \<^verbatim>\<open>navigated\<close> with its path and
  bag; and A's second \<^verbatim>\<open>tap\<close>, run then or after any further calls of \<^verbatim>\<open>navigate\<close>,
  changes nothing, however A's chain settled: the store stays as B's commit left it.
\<close>

theorem preempted_navigation_is_discarded:
  assumes A: "navigate_start c0 w0 pathA = (Some hA, cA, wA)"
    and B: "navigate_start cA w1 pathB = (Some hB, cB, wB)"
  shows "pathA \<noteq> pathB \<and> hA \<noteq> hB
       \<and> commit_tap cB hB pathB (Resolves aB, w2 :: 'a world, bagB, trB)
           = (Resolves aB,
              w2\<lparr>progress := False, st_path := pathB, st_params := bagB,
                 location_hash := ''#'' @ pathB\<rparr>, bagB, trB)
       \<and> (\<forall>ps (rA :: (ref, 'a world) run). commit_tap (foldl ctl_after cB ps) hA pathA rA = rA)
       \<and> (\<forall>prA bagA trA.
            store_of (commit_tap cB hA pathA
              (prA, store_of (commit_tap cB hB pathB (Resolves aB, w2, bagB, trB)), bagA, trA))
            = w2\<lparr>progress := False, st_path := pathB, st_params := bagB,
                 location_hash := ''#'' @ pathB\<rparr>)"
proof -
  from A have cA: "cA = c0\<lparr>currentHandle := (allocated c0, pathA), allocated := Suc (allocated c0)\<rparr>"
    and hA: "hA = allocated c0"
    by (auto simp: navigate_start_def Let_def split: if_splits)
  from B have cB: "cB = cA\<lparr>currentHandle := (allocated cA, pathB), allocated := Suc (allocated cA)\<rparr>"
    and hB: "hB = allocated cA" and ne: "pathA \<noteq> pathB"
    by (auto simp: navigate_start_def Let_def cA split: if_splits)
  have cur: "fst (currentHandle cB) = hB" by (simp add: cB hB)
  have lt: "hA < fst (currentHandle cB)" "hA < allocated cB" by (simp_all add: cB cA hA)
  have commitB: "commit_tap cB hB pathB (Resolves aB, w2, bagB, trB)
           = (Resolves aB,
              w2\<lparr>progress := False, st_path := pathB, st_params := bagB,
                 location_hash := ''#'' @ pathB\<rparr>, bagB, trB)"
    using cur by (simp add: navigated_def)
  have later: "commit_tap (foldl ctl_after cB ps) hA pathA rA = rA" for ps and rA :: "(ref, 'a world) run"
    using later_calls_keep_superseded [OF lt, of ps] by (intro commit_tap_discards) simp
  have "hA \<noteq> hB" using lt cur by simp
  moreover have "store_of (commit_tap cB hA pathA
              (prA, store_of (commit_tap cB hB pathB (Resolves aB, w2, bagB, trB)), bagA, trA))
            = w2\<lparr>progress := False, st_path := pathB, st_params := bagB,
                 location_hash := ''#'' @ pathB\<rparr>" for prA bagA trA
  proof -
    have l0: "commit_tap cB hA pathA rA = rA" for rA :: "(ref, 'a world) run"
      using later [of "[]"] by simp
    show "store_of (commit_tap cB hA pathA
              (prA, store_of (commit_tap cB hB pathB (Resolves aB, w2, bagB, trB)), bagA, trA))
            = w2\<lparr>progress := False, st_path := pathB, st_params := bagB,
                 location_hash := ''#'' @ pathB\<rparr>" for prA bagA trA
      by (simp only: commitB l0 store_of_def fst_conv snd_conv)
  qed
  ultimately show ?thesis using ne commitB later by blast
qed

text \<open>
  From the initial controller: \<^verbatim>\<open>navigate('/a')\<close>, \<^verbatim>\<open>navigate('/b')\<close>, B completes, then A
  completes; the store holds B's path and bag.
\<close>

theorem preempted_navigation_is_discarded_witness:
  "store_of (commit_tap (ctl_after (ctl_after init_ctl ''/a'') ''/b'') 1 ''/a''
      (Resolves 1,
       store_of (commit_tap (ctl_after (ctl_after init_ctl ''/a'') ''/b'') 2 ''/b''
          (Resolves 2, navigating (init_world ()), [Str ''page'' \<mapsto> VStr ''b''], [])),
       [Str ''page'' \<mapsto> VStr ''a''], []))
   = \<lparr>progress = False, st_path = ''/b'', st_params = [Str ''page'' \<mapsto> VStr ''b''],
      location_hash = ''#/b'', root = ()\<rparr>"
  using preempted_navigation_is_discarded [where ?c0.0 = init_ctl and ?w0.0 = "init_world ()"
      and pathA = "''/a''" and hA = 1 and cA = "ctl_after init_ctl ''/a''"
      and wA = "navigating (init_world ())" and ?w1.0 = "navigating (init_world ())"
      and pathB = "''/b''" and hB = 2 and cB = "ctl_after (ctl_after init_ctl ''/a'') ''/b''"
      and wB = "navigating (navigating (init_world ()))"
      and ?w2.0 = "navigating (init_world ())" and bagB = "[Str ''page'' \<mapsto> VStr ''b'']"
      and trB = "[]" and aB = 2]
  by (simp add: ctl_after_def navigate_start_def init_ctl_def init_world_def navigating_def
      navigated_def store_of_def)

text \<open>
  On a well-formed heap with enough fuel, a call of \<^verbatim>\<open>navigate\<close> returns: the pipeline that
  it starts runs to its end.
\<close>

lemma navigate_returns:
  assumes "wf_heap H" and "router < length H" and "length H - router \<le> n"
  shows "navigate n H dispatch post router c w p \<noteq> None"
proof (cases "snd (currentHandle c) = p")
  case True
  then show ?thesis by (simp add: navigate_def navigate_start_def)
next
  case False
  obtain r where "exec n H dispatch router (navigating w) p (allocated c) Map.empty = Some r"
    using exec_total [OF assms, of dispatch "navigating w" p "allocated c" Map.empty] by blast
  with False show ?thesis by (simp add: navigate_def navigate_start_def Let_def)
qed

text \<open>
  Claim C7 (duplicate-path guard). When the path equals the path of the current handle,
  \<^verbatim>\<open>navigate\<close> returns at the guard: the controller and the store are unchanged (no handle,
  no \<^verbatim>\<open>navigating\<close>) and \<^verbatim>\<open>router.exec\<close> is not called. When it differs, the call makes one
  handle, commits \<^verbatim>\<open>navigating\<close> and runs the pipeline once: what it returns is the chain
  of the one call of \<^verbatim>\<open>router.exec\<close> on the path with a fresh bag, followed by the two
  \<^verbatim>\<open>tap\<close> handlers, and never the early return of the guard. A second call with the same
  path, whenever it comes before another navigation, returns at the guard: two calls in a
  row run exactly one pipeline.
\<close>

theorem duplicate_navigate_is_noop:
  "(snd (currentHandle c) = p \<longrightarrow>
      navigate_start c w p = (None, c, w)
      \<and> navigate n H dispatch post router c w p = Some (c, w, Ignored))
   \<and> (snd (currentHandle c) \<noteq> p \<longrightarrow>
      (\<exists>c1. navigate_start c w p = (Some (allocated c), c1, navigating w)
            \<and> allocated c1 = Suc (allocated c)
            \<and> navigate n H dispatch post router c w p =
                  map_option
                    (\<lambda>r. (c1, store_of (commit_tap c1 (allocated c) p (post_tap post r)),
                          Chain (commit_tap c1 (allocated c) p (post_tap post r))))
                    (exec n H dispatch router (navigating w) p (allocated c) Map.empty)
            \<and> (\<forall>c' w'. navigate n H dispatch post router c w p \<noteq> Some (c', w', Ignored))
            \<and> (\<forall>w' n' H' dispatch' post' router'.
                  navigate_start c1 w' p = (None, c1, w')
                  \<and> navigate n' H' dispatch' post' router' c1 w' p = Some (c1, w', Ignored))))"
  by (auto simp: navigate_start_def navigate_def Let_def split: option.splits)

text \<open>
  From the initial controller, \<^verbatim>\<open>navigate('/a')\<close> passes the guard and a second call returns
  at it. On \<open>home_router\<close> with a hook that returns a promise, the first
  \<^verbatim>\<open>navigate('/home')\<close> runs the pipeline and commits, and the second one, on the
  controller and store that the first one left, returns at the guard and changes nothing.
\<close>

theorem duplicate_navigate_is_noop_witness:
  "navigate_start init_ctl (init_world ()) ''/a''
     = (Some 1, \<lparr>currentHandle = (1, ''/a''), allocated = 2\<rparr>, navigating (init_world ()))
   \<and> navigate_start \<lparr>currentHandle = (1, ''/a''), allocated = 2\<rparr> (navigating (init_world ())) ''/a''
     = (None, \<lparr>currentHandle = (1, ''/a''), allocated = 2\<rparr>, navigating (init_world ()))
   \<and> (\<exists>w r. navigate (Suc 0) [home_router] no_actions resolved_post 0 init_ctl (init_world ()) ''/home''
            = Some (\<lparr>currentHandle = (1, ''/home''), allocated = 2\<rparr>, w, Chain r)
          \<and> settled r = Resolves 1 \<and> trace_of r = []
          \<and> st_path w = ''/home'' \<and> location_hash w = ''#/home'' \<and> \<not> progress w
          \<and> navigate (Suc 0) [home_router] no_actions resolved_post 0
                \<lparr>currentHandle = (1, ''/home''), allocated = 2\<rparr> w ''/home''
              = Some (\<lparr>currentHandle = (1, ''/home''), allocated = 2\<rparr>, w, Ignored))"
  using duplicate_navigate_is_noop [of init_ctl "''/a''" "init_world ()"]
    duplicate_navigate_is_noop [of "\<lparr>currentHandle = (1, ''/a''), allocated = 2\<rparr>" "''/a''" "navigating (init_world ())"]
    duplicate_navigate_is_noop [of init_ctl "''/home''" "init_world ()" "Suc 0" "[home_router]"
      no_actions resolved_post 0]
  by (simp add: init_ctl_def navigate_start_def navigate_def init_world_def navigating_def
      navigated_def home_router_def new_router_def lit_pattern_def exec_body_def match_def
      get_def resolved_post_def no_actions_def settled_def trace_of_def store_of_def)

subsection \<open>The post-processing hook\<close>

text \<open>
  The first \<^verbatim>\<open>tap\<close> keeps the chain fulfilled only when \<^verbatim>\<open>router.post(params)\<close> returns a
  promise; a rejected promise then sets \<^verbatim>\<open>error\<close>. A hook that returns another value, or
  throws, rejects the chain, and the second \<^verbatim>\<open>tap\<close> does not run on a rejected chain.
\<close>

lemma post_tap_promised:
  "post w p = (Promised pr, w1, p1) \<Longrightarrow>
   post_tap post (Resolves u, w, p, tr) =
     (Resolves u, w1, (case pr of Resolves v \<Rightarrow> p1 | Rejects e \<Rightarrow> p1(Str ''error'' \<mapsto> VErr e)), tr)"
  by (cases pr) simp_all

lemma post_tap_not_promised:
  "post w p = (Plain, w1, p1) \<or> post w p = (Throws e, w1, p1) \<Longrightarrow>
   \<exists>e'. post_tap post (Resolves u, w, p, tr) = (Rejects e', w1, p1, tr)"
  by auto

lemma commit_tap_rejected: "commit_tap c h path (Rejects e, w, p, tr) = (Rejects e, w, p, tr)"
  by simp

text \<open>
  With a hook that returns a fulfilled promise, a navigation to a path that no route
  accepts, not interrupted, commits the path and the bag with the error.
\<close>

lemma not_found_commits_with_promise_hook:
  assumes "router < length H"
    and "\<forall>j<length (routes (H ! router)). re_exec (re (routes (H ! router) ! j)) path = None"
    and "snd (currentHandle c) \<noteq> path"
    and "\<And>w p. post w p = (Promised (Resolves Map.empty), w, p)"
  shows "\<exists>c1 r. navigate (Suc n) H dispatch post router c w path
            = Some (c1, w\<lparr>progress := False, st_path := path, st_params := bag_of r,
                          location_hash := ''#'' @ path\<rparr>, Chain r)
          \<and> settled r = Resolves (allocated c)
          \<and> bag_of r = [Str ''router'' \<mapsto> VRouter router, Str ''route'' \<mapsto> VUndef,
                         Str ''error'' \<mapsto> VErr (Error ''Not found'')]"
  using assms(3) exec_not_found [OF assms(1) assms(2), of n dispatch _ "allocated c"] assms(4)
  by (simp add: navigate_def navigate_start_def Let_def navigating_def navigated_def
      store_of_def bag_of_def settled_def del: exec.simps)

text \<open>
  Claim C9 (the hook never aborts the controller) does not hold of the code with the hook
  that the module installs, \<^verbatim>\<open>router.post = () => {}\<close>. Navigating to \<^verbatim>\<open>/home\<close> on
  \<open>home_router\<close> from the initial state: the route is matched and the handle is still
  current, but the chain rejects with a \<^verbatim>\<open>TypeError\<close>, \<^verbatim>\<open>error\<close> is not set on the bag, and
  neither \<^verbatim>\<open>location.hash\<close> nor the committed path is written; \<^verbatim>\<open>progress\<close> stays true.
\<close>

theorem default_hook_aborts_commit:
  "\<exists>c w r. navigate (Suc 0) [home_router] no_actions default_post 0 init_ctl (init_world ()) ''/home''
              = Some (c, w, Chain r)
     \<and> currentHandle c = (1, ''/home'')
     \<and> settled r = Rejects (TypeError ''Cannot read property catch of undefined'')
     \<and> get (bag_of r) (Str ''route'') = VRoute 0 0
     \<and> get (bag_of r) (Str ''error'') = VUndef
     \<and> w = \<lparr>progress = True, st_path = [], st_params = Map.empty, location_hash = [], root = ()\<rparr>"
  by (simp add: navigate_def navigate_start_def init_ctl_def init_world_def navigating_def
      home_router_def new_router_def lit_pattern_def exec_body_def match_def get_def
      default_post_def no_actions_def settled_def bag_of_def store_of_def)

text \<open>
  Claim C5 (a navigation to an unmatched path still commits) does not hold of the code
  with the installed hook either. Navigating to \<^verbatim>\<open>/nowhere\<close> on \<open>home_router\<close>: the bag has
  the error \<^verbatim>\<open>Not found\<close> and no route, the handle is still current, and yet
  \<^verbatim>\<open>location.hash\<close> and the committed path and bag are not written.
\<close>

theorem not_found_is_not_committed:
  "\<exists>c w r. navigate (Suc 0) [home_router] no_actions default_post 0 init_ctl (init_world ()) ''/nowhere''
              = Some (c, w, Chain r)
     \<and> currentHandle c = (1, ''/nowhere'')
     \<and> get (bag_of r) (Str ''error'') = VErr (Error ''Not found'')
     \<and> get (bag_of r) (Str ''route'') = VUndef
     \<and> location_hash w = [] \<and> st_path w = [] \<and> st_params w = Map.empty \<and> progress w"
  by (simp add: navigate_def navigate_start_def init_ctl_def init_world_def navigating_def
      home_router_def new_router_def lit_pattern_def exec_body_def match_def get_def
      default_post_def no_actions_def settled_def bag_of_def store_of_def)

end
